theory Spec2Isabelle
  imports Main
begin

section \<open>Task store\<close>

text \<open>
  A MongoDB ObjectId is carried as the lower-case hexadecimal string that
  \<^verbatim>\<open>toString()\<close> prints. Timestamps are milliseconds since the epoch. A position is
  the integer value of a JavaScript Number; arithmetic on it is the arithmetic of
  doubles, see \<open>js_plus\<close>.
\<close>

type_synonym oid = string
type_synonym timestamp = nat

text \<open>The document of \<^verbatim>\<open>models/Task.js\<close> (\<^verbatim>\<open>taskSchema\<close>, with \<^verbatim>\<open>timestamps: true\<close>).\<close>

record task =
  task_id :: oid
  title :: string
  description :: string
  status :: string
  userId :: oid
  position :: int
  completedAt :: "timestamp option"
  createdAt :: timestamp
  updatedAt :: timestamp

text \<open>The collection, in insertion order.\<close>

type_synonym store = "task list"

text \<open>
  A failed request: the HTTP status and the error code of the JSON answer
  (\<^verbatim>\<open>AppError\<close>, \<^verbatim>\<open>handleValidationErrors\<close>, \<^verbatim>\<open>handleMongoError\<close>).
\<close>

datatype failure = Failure (statusCode: nat) (code: string)

text \<open>
  The JSON body of a task request. A field that is \<^verbatim>\<open>undefined\<close> is \<open>None\<close>.
  \<open>b_completedAt\<close> stands for a \<^verbatim>\<open>completedAt\<close> key that a client may add to the body.
\<close>

record body =
  b_title :: "string option"
  b_description :: "string option"
  b_status :: "string option"
  b_position :: "int option"
  b_completedAt :: "timestamp option"

text \<open>An event handed to \<^verbatim>\<open>io.to(room).emit(name, payload)\<close>.\<close>

record event =
  ev_room :: string
  ev_name :: string
  ev_taskId :: "oid option"
  ev_task :: task
  ev_timestamp :: timestamp

text \<open>What a route leaves behind: the answer, the collection and the events emitted.\<close>

record reply =
  response :: "failure + task"
  stored :: store
  emitted :: "event list"

subsection \<open>Numbers\<close>

text \<open>The number of binary digits of a natural number.\<close>

fun bit_length :: "nat \<Rightarrow> nat" where
  "bit_length n = (if n = 0 then 0 else Suc (bit_length (n div 2)))"

text \<open>
  The JavaScript Number nearest to an integer: IEEE 754 binary64 with 53 binary digits
  of precision, round to nearest, ties to the even significand. Every integer up to
  \<open>2 ^ 53\<close> in magnitude is exact. Magnitudes from \<open>2 ^ 1024\<close> on, which are
  \<^verbatim>\<open>Infinity\<close>, are beyond the model.
\<close>

definition js_number :: "int \<Rightarrow> int" where
  "js_number q =
     (if \<bar>q\<bar> \<le> 2 ^ 53 then q
      else (let u = 2 ^ (bit_length (nat \<bar>q\<bar>) - 53);
                d = \<bar>q\<bar> div u;
                m = \<bar>q\<bar> mod u;
                r = (if 2 * m < u then d
                     else if u < 2 * m then d + 1
                     else if even d then d else d + 1)
            in sgn q * (r * u)))"

text \<open>\<^verbatim>\<open>a + b\<close> on Numbers with integer values: the exact sum, rounded.\<close>

definition js_plus :: "int \<Rightarrow> int \<Rightarrow> int" where
  "js_plus a b = js_number (a + b)"

subsection \<open>Strings\<close>

definition is_space :: "char \<Rightarrow> bool" where
  "is_space c = (of_char c \<in> {9, 10, 11, 12, 13, 32 :: nat})"

definition trim :: "string \<Rightarrow> string" where
  "trim s = rev (dropWhile is_space (rev (dropWhile is_space s)))"

definition statuses :: "string list" where
  "statuses = [''todo'', ''inprogress'', ''done'']"

subsection \<open>Pre-save middleware of the schema\<close>

text \<open>
  \<^verbatim>\<open>taskSchema.pre('save')\<close>. \<open>modified\<close> is \<^verbatim>\<open>this.isModified('status')\<close>; a \<^verbatim>\<open>Date\<close>
  object is always truthy, so \<^verbatim>\<open>!this.completedAt\<close> holds exactly for \<^verbatim>\<open>null\<close>.
\<close>

definition pre_save :: "bool \<Rightarrow> timestamp \<Rightarrow> task \<Rightarrow> task" where
  "pre_save modified now t =
     (if modified then
        (if status t = ''done'' \<and> completedAt t = None then t\<lparr>completedAt := Some now\<rparr>
         else if status t \<noteq> ''done'' then t\<lparr>completedAt := None\<rparr>
         else t)
      else t)"

text \<open>
  The validators declared on the schema paths, run by \<^verbatim>\<open>save()\<close> before the pre-save
  middleware. \<open>m p\<close> says that path \<open>p\<close> is validated: every path of a new document,
  the modified paths of a loaded one; \<^verbatim>\<open>required\<close> is checked in either case.
\<close>

definition schema_errors :: "(string \<Rightarrow> bool) \<Rightarrow> task \<Rightarrow> string list" where
  "schema_errors m t =
     (if title t = [] then [''Task title is required''] else []) @
     (if m ''title'' \<and> 200 < length (title t)
      then [''Task title cannot exceed 200 characters''] else []) @
     (if m ''description'' \<and> 1000 < length (description t)
      then [''Task description cannot exceed 1000 characters''] else []) @
     (if m ''status'' \<and> status t \<notin> set statuses
      then [''Status must be one of: todo, inprogress, done''] else []) @
     (if m ''position'' \<and> position t < 0 then [''Position cannot be negative''] else [])"

text \<open>
  \<^verbatim>\<open>new Task({...})\<close> followed by \<^verbatim>\<open>save()\<close>: the \<^verbatim>\<open>trim\<close> setters and the defaults of
  the schema, validation, the pre-save middleware (every path given to the constructor of
  a new document counts as modified), then the insert, which MongoDB refuses with error
  11000 when the \<^verbatim>\<open>_id\<close> is taken. \<^verbatim>\<open>globalErrorHandler\<close> turns both errors into 400
  answers.
\<close>

definition save_new ::
  "store \<Rightarrow> oid \<Rightarrow> timestamp \<Rightarrow> string \<Rightarrow> string option \<Rightarrow> string \<Rightarrow> oid \<Rightarrow> int
     \<Rightarrow> failure + task" where
  "save_new s newId now ttl descr st uid pos =
     (let t = \<lparr> task_id = newId, title = trim ttl,
                description = (case descr of None \<Rightarrow> [] | Some d \<Rightarrow> trim d),
                status = st, userId = uid, position = pos, completedAt = None,
                createdAt = now, updatedAt = now \<rparr>
      in if schema_errors (\<lambda>p. True) t \<noteq> []
         then Inl (Failure 400 ''MONGOOSE_VALIDATION_ERROR'')
         else if newId \<in> set (map task_id s) then Inl (Failure 400 ''DUPLICATE_FIELD'')
         else Inr (pre_save True now t))"

text \<open>
  \<^verbatim>\<open>save()\<close> of a document loaded from the collection as \<open>old\<close>, after the controller
  assigned its fields, giving \<open>new\<close>. Mongoose marks a path modified when the assigned
  value differs from the loaded one, writes nothing when no path is modified, and
  refreshes \<^verbatim>\<open>updatedAt\<close> otherwise.
\<close>

definition isModified :: "task \<Rightarrow> task \<Rightarrow> string \<Rightarrow> bool" where
  "isModified old new p =
     (if p = ''title'' then title new \<noteq> title old
      else if p = ''description'' then description new \<noteq> description old
      else if p = ''status'' then status new \<noteq> status old
      else if p = ''position'' then position new \<noteq> position old
      else False)"

definition save_existing :: "timestamp \<Rightarrow> task \<Rightarrow> task \<Rightarrow> failure + task" where
  "save_existing now old new =
     (if schema_errors (isModified old new) new \<noteq> []
      then Inl (Failure 400 ''MONGOOSE_VALIDATION_ERROR'')
      else if \<not> (\<exists>p \<in> set [''title'', ''description'', ''status'', ''position''].
                   isModified old new p)
      then Inr new
      else Inr ((pre_save (isModified old new ''status'') now new)\<lparr>updatedAt := now\<rparr>))"

text \<open>Writing a saved document back under its \<^verbatim>\<open>_id\<close>.\<close>

definition replace_task :: "task \<Rightarrow> store \<Rightarrow> store" where
  "replace_task t s = map (\<lambda>u. if task_id u = task_id t then t else u) s"

subsection \<open>Request validation\<close>

text \<open>
  The express-validator chains of \<^verbatim>\<open>middleware/validation.js\<close>; each returns the fields
  in error. A missing \<^verbatim>\<open>title\<close> is read as the empty string. \<^verbatim>\<open>isInt\<close> rejects anything
  that is not an integer; such bodies are outside \<open>b_position\<close>'s type.
\<close>

definition validateCreateTask :: "body \<Rightarrow> string list" where
  "validateCreateTask b =
     (let ttl = trim (case b_title b of None \<Rightarrow> [] | Some x \<Rightarrow> x)
      in if length ttl < 1 \<or> 200 < length ttl then [''title''] else []) @
     (case b_description b of None \<Rightarrow> []
      | Some d \<Rightarrow> if 1000 < length (trim d) then [''description''] else []) @
     (case b_status b of None \<Rightarrow> []
      | Some st \<Rightarrow> if st \<in> set statuses then [] else [''status'']) @
     (case b_position b of None \<Rightarrow> []
      | Some p \<Rightarrow> if 0 \<le> p then [] else [''position''])"

definition validateUpdateTask :: "body \<Rightarrow> string list" where
  "validateUpdateTask b =
     (case b_title b of None \<Rightarrow> []
      | Some x \<Rightarrow> if length (trim x) < 1 \<or> 200 < length (trim x) then [''title''] else []) @
     (case b_description b of None \<Rightarrow> []
      | Some d \<Rightarrow> if 1000 < length (trim d) then [''description''] else []) @
     (case b_status b of None \<Rightarrow> []
      | Some st \<Rightarrow> if st \<in> set statuses then [] else [''status'']) @
     (case b_position b of None \<Rightarrow> []
      | Some p \<Rightarrow> if 0 \<le> p then [] else [''position''])"

definition validateUpdateTaskStatus :: "body \<Rightarrow> string list" where
  "validateUpdateTaskStatus b =
     (case b_status b of None \<Rightarrow> [''status'']
      | Some st \<Rightarrow> if st \<in> set statuses then [] else [''status'']) @
     (case b_position b of None \<Rightarrow> []
      | Some p \<Rightarrow> if 0 \<le> p then [] else [''position''])"

text \<open>The \<^verbatim>\<open>.trim()\<close> sanitizers of the chains rewrite the body they validate.\<close>

definition sanitized :: "body \<Rightarrow> body" where
  "sanitized b = b\<lparr>b_title := map_option trim (b_title b),
                   b_description := map_option trim (b_description b)\<rparr>"

definition validation_failed :: failure where
  "validation_failed = Failure 400 ''VALIDATION_ERROR''"

subsection \<open>Fan-out events\<close>

text \<open>\<^verbatim>\<open>emitTaskEvent\<close> of \<^verbatim>\<open>socket/socketHandlers.js\<close>: the room is the account's.\<close>

definition emitTaskEvent :: "oid \<Rightarrow> string \<Rightarrow> task \<Rightarrow> timestamp \<Rightarrow> event list" where
  "emitTaskEvent uid eventType taskData now =
     (let room = ''user:'' @ uid in
      if eventType = ''task-created'' \<or> eventType = ''task-updated''
           \<or> eventType = ''task-status-updated''
      then [\<lparr> ev_room = room, ev_name = eventType, ev_taskId = None, ev_task = taskData,
              ev_timestamp = now \<rparr>]
      else if eventType = ''task-deleted''
      then [\<lparr> ev_room = room, ev_name = eventType, ev_taskId = Some (task_id taskData),
              ev_task = taskData, ev_timestamp = now \<rparr>]
      else [])"

subsection \<open>Controllers\<close>

definition failed :: "store \<Rightarrow> failure \<Rightarrow> reply" where
  "failed s e = \<lparr> response = Inl e, stored = s, emitted = [] \<rparr>"

text \<open>
  \<^verbatim>\<open>Task.findOne({ userId, status }).sort({ position: -1 })\<close>: a document of the owner's
  lane with the greatest position, if the lane has one.
\<close>

definition greater_position :: "task \<Rightarrow> task option \<Rightarrow> task option" where
  "greater_position t acc =
     (case acc of None \<Rightarrow> Some t
      | Some m \<Rightarrow> if position m < position t then Some t else Some m)"

definition lastTask :: "store \<Rightarrow> oid \<Rightarrow> string \<Rightarrow> task option" where
  "lastTask s uid st =
     fold greater_position (filter (\<lambda>t. userId t = uid \<and> status t = st) s) None"

definition createTask :: "store \<Rightarrow> oid \<Rightarrow> body \<Rightarrow> oid \<Rightarrow> timestamp \<Rightarrow> reply" where
  "createTask s uid b newId now =
     (let st = (case b_status b of None \<Rightarrow> ''todo'' | Some x \<Rightarrow> x);
          taskPosition =
            (case b_position b of
               Some p \<Rightarrow> p
             | None \<Rightarrow> (case lastTask s uid st of
                          Some l \<Rightarrow> js_plus (position l) 1
                        | None \<Rightarrow> 0))
      in case save_new s newId now (case b_title b of None \<Rightarrow> [] | Some x \<Rightarrow> x)
                (b_description b) st uid taskPosition of
           Inl e \<Rightarrow> failed s e
         | Inr t \<Rightarrow> \<lparr> response = Inr t, stored = s @ [t],
                      emitted = emitTaskEvent uid ''task-created'' t now \<rparr>)"

text \<open>The controllers below receive \<^verbatim>\<open>req.task\<close>, the document that the ownership check loaded.\<close>

definition updateTask :: "store \<Rightarrow> oid \<Rightarrow> task \<Rightarrow> body \<Rightarrow> timestamp \<Rightarrow> reply" where
  "updateTask s uid t b now =
     (let t1 = (case b_title b of None \<Rightarrow> t | Some x \<Rightarrow> t\<lparr>title := trim x\<rparr>);
          t2 = (case b_description b of None \<Rightarrow> t1 | Some x \<Rightarrow> t1\<lparr>description := trim x\<rparr>);
          t3 = (case b_status b of None \<Rightarrow> t2 | Some x \<Rightarrow> t2\<lparr>status := x\<rparr>);
          t4 = (case b_position b of None \<Rightarrow> t3 | Some x \<Rightarrow> t3\<lparr>position := x\<rparr>)
      in case save_existing now t t4 of
           Inl e \<Rightarrow> failed s e
         | Inr t' \<Rightarrow> \<lparr> response = Inr t', stored = replace_task t' s,
                       emitted = emitTaskEvent uid ''task-updated'' t' now \<rparr>)"

definition deleteTask :: "store \<Rightarrow> oid \<Rightarrow> task \<Rightarrow> timestamp \<Rightarrow> reply" where
  "deleteTask s uid t now =
     \<lparr> response = Inr t, stored = filter (\<lambda>u. task_id u \<noteq> task_id t) s,
       emitted = emitTaskEvent uid ''task-deleted'' t now \<rparr>"

text \<open>\<open>st\<close> and \<open>pos\<close> are the \<^verbatim>\<open>status\<close> and \<^verbatim>\<open>position\<close> destructured from the body.\<close>

definition updateTaskStatus ::
  "store \<Rightarrow> oid \<Rightarrow> task \<Rightarrow> string \<Rightarrow> int option \<Rightarrow> timestamp \<Rightarrow> reply" where
  "updateTaskStatus s uid t st pos now =
     (let t1 = t\<lparr>status := st\<rparr>;
          t2 = (case pos of None \<Rightarrow> t1 | Some x \<Rightarrow> t1\<lparr>position := x\<rparr>)
      in case save_existing now t t2 of
           Inl e \<Rightarrow> failed s e
         | Inr t' \<Rightarrow> \<lparr> response = Inr t', stored = replace_task t' s,
                       emitted = emitTaskEvent uid ''task-status-updated'' t' now \<rparr>)"

subsection \<open>Routes\<close>

text \<open>
  \<^verbatim>\<open>validateTaskOwnership\<close>. \<open>idp\<close> is \<^verbatim>\<open>req.params.id\<close>: \<open>None\<close> when
  \<^verbatim>\<open>ObjectId.isValid\<close> rejects it, otherwise the ObjectId it denotes.
\<close>

definition validateTaskOwnership :: "store \<Rightarrow> oid \<Rightarrow> oid option \<Rightarrow> failure + task" where
  "validateTaskOwnership s uid idp =
     (case idp of
        None \<Rightarrow> Inl (Failure 400 ''INVALID_ID'')
      | Some i \<Rightarrow>
          (case find (\<lambda>t. task_id t = i \<and> userId t = uid) s of
             None \<Rightarrow> Inl (Failure 404 ''TASK_NOT_FOUND'')
           | Some t \<Rightarrow> Inr t))"

text \<open>
  The middleware chain that \<^verbatim>\<open>routes/tasks.js\<close> gives each route (lines 34 to 46), in its
  order, for a request that \<^verbatim>\<open>authenticate\<close> resolved to the account \<open>uid\<close>. The guards
  that the router puts in front of every route with \<^verbatim>\<open>router.use\<close> are \<open>router_guards\<close>
  below, and \<open>task_router\<close> runs them before the chain.
\<close>

definition route_post :: "store \<Rightarrow> oid \<Rightarrow> body \<Rightarrow> oid \<Rightarrow> timestamp \<Rightarrow> reply" where
  "route_post s uid b newId now =
     (if validateCreateTask b \<noteq> [] then failed s validation_failed
      else createTask s uid (sanitized b) newId now)"

definition route_put :: "store \<Rightarrow> oid \<Rightarrow> oid option \<Rightarrow> body \<Rightarrow> timestamp \<Rightarrow> reply" where
  "route_put s uid idp b now =
     (case validateTaskOwnership s uid idp of
        Inl e \<Rightarrow> failed s e
      | Inr t \<Rightarrow>
          if validateUpdateTask b \<noteq> [] then failed s validation_failed
          else updateTask s uid t (sanitized b) now)"

definition route_delete :: "store \<Rightarrow> oid \<Rightarrow> oid option \<Rightarrow> timestamp \<Rightarrow> reply" where
  "route_delete s uid idp now =
     (case validateTaskOwnership s uid idp of
        Inl e \<Rightarrow> failed s e
      | Inr t \<Rightarrow> deleteTask s uid t now)"

definition route_patch :: "store \<Rightarrow> oid \<Rightarrow> oid option \<Rightarrow> body \<Rightarrow> timestamp \<Rightarrow> reply" where
  "route_patch s uid idp b now =
     (case validateTaskOwnership s uid idp of
        Inl e \<Rightarrow> failed s e
      | Inr t \<Rightarrow>
          if validateUpdateTaskStatus b \<noteq> [] then failed s validation_failed
          else (case b_status b of
                  None \<Rightarrow> failed s validation_failed
                | Some st \<Rightarrow> updateTaskStatus s uid t st (b_position b) now))"

text \<open>A run of \<^verbatim>\<open>POST /tasks\<close> requests of one account: the answers and the final collection.\<close>

fun create_seq ::
  "store \<Rightarrow> oid \<Rightarrow> (body \<times> oid \<times> timestamp) list \<Rightarrow> (failure + task) list \<times> store" where
  "create_seq s uid [] = ([], s)"
| "create_seq s uid ((b, newId, now) # rs) =
     (let r = route_post s uid b newId now;
          (xs, s') = create_seq (stored r) uid rs
      in (response r # xs, s'))"


text \<open>The position that \<^verbatim>\<open>createTask\<close> computes when the body carries none.\<close>

definition next_position :: "store \<Rightarrow> oid \<Rightarrow> string \<Rightarrow> int" where
  "next_position s uid st = (case lastTask s uid st of Some l \<Rightarrow> js_plus (position l) 1 | None \<Rightarrow> 0)"

text \<open>
  The rank as the specification words it: one past the greatest rank among the owner's
  tasks in the lane, or 0 when the lane is empty.
\<close>

definition spec_rank :: "store \<Rightarrow> oid \<Rightarrow> string \<Rightarrow> int" where
  "spec_rank s uid st =
     (let lane = filter (\<lambda>t. userId t = uid \<and> status t = st) s
      in if lane = [] then 0 else Max (set (map position lane)) + 1)"

subsection \<open>Request histories\<close>

text \<open>
  One authenticated request to the task routes: the account that \<^verbatim>\<open>authenticate\<close>
  resolved, the \<^verbatim>\<open>:id\<close> parameter, the body, and the clock when it is served. \<open>Post\<close>
  also carries the \<^verbatim>\<open>_id\<close> that the driver draws for the new document.
\<close>

datatype request =
    Post oid body oid timestamp
  | Put oid "oid option" body timestamp
  | Delete oid "oid option" timestamp
  | Patch oid "oid option" body timestamp

fun handle :: "store \<Rightarrow> request \<Rightarrow> reply" where
  "handle s (Post uid b newId now) = route_post s uid b newId now"
| "handle s (Put uid idp b now) = route_put s uid idp b now"
| "handle s (Delete uid idp now) = route_delete s uid idp now"
| "handle s (Patch uid idp b now) = route_patch s uid idp b now"

text \<open>
  What the guards of the router read from a request: the number that \<^verbatim>\<open>parseInt\<close> makes
  of the \<^verbatim>\<open>content-length\<close> header (0 when there is none), and the keys, at any depth, of
  \<^verbatim>\<open>req.body\<close>, \<^verbatim>\<open>req.query\<close> and \<^verbatim>\<open>req.params\<close>.
\<close>

record transport =
  content_length :: nat
  keys :: "string list"

definition validateRequestSize :: "transport \<Rightarrow> failure option" where
  "validateRequestSize tr =
     (let maxSize = 1024 * 1024
      in if maxSize < content_length tr then Some (Failure 413 ''PAYLOAD_TOO_LARGE'')
         else None)"

text \<open>\<^verbatim>\<open>key.startsWith('$') || key.includes('.')\<close>, for some key.\<close>

definition validateNoSqlInjection :: "transport \<Rightarrow> failure option" where
  "validateNoSqlInjection tr =
     (if list_ex (\<lambda>key. take 1 key = ''$'' \<or> CHR ''.'' \<in> set key) (keys tr)
      then Some (Failure 400 ''INVALID_INPUT'')
      else None)"

text \<open>
  \<^verbatim>\<open>router.use(sanitizeInput)\<close>, \<^verbatim>\<open>router.use(validateRequestSize)\<close> and
  \<^verbatim>\<open>router.use(validateNoSqlInjection)\<close>, in this order. \<^verbatim>\<open>sanitizeInput\<close> refuses
  nothing: it rewrites the strings of the request, and the body of a \<open>request\<close> is the body
  it leaves.
\<close>

definition router_guards :: "transport \<Rightarrow> failure option" where
  "router_guards tr =
     (case validateRequestSize tr of
        Some e \<Rightarrow> Some e
      | None \<Rightarrow> validateNoSqlInjection tr)"

text \<open>
  The router as a whole: the guards, then \<^verbatim>\<open>authenticate\<close>, which resolved the account
  that the \<open>request\<close> carries, then the chain of the route.
\<close>

definition task_router :: "transport \<Rightarrow> store \<Rightarrow> request \<Rightarrow> reply" where
  "task_router tr s r =
     (case router_guards tr of
        Some e \<Rightarrow> failed s e
      | None \<Rightarrow> handle s r)"

text \<open>The collection after a history of requests, served one after the other.\<close>

fun run :: "store \<Rightarrow> request list \<Rightarrow> store" where
  "run s [] = s"
| "run s (r # rs) = run (stored (handle s r)) rs"



text \<open>
  The body that \<^verbatim>\<open>taskService.updateTaskStatus(taskId, status)\<close> sends with
  \<^verbatim>\<open>api.patch\<close>: the object \<^verbatim>\<open>{ status }\<close>.
\<close>

definition status_body :: "string \<Rightarrow> body" where
  "status_body st = \<lparr> b_title = None, b_description = None, b_status = Some st,
     b_position = None, b_completedAt = None \<rparr>"

subsection \<open>Listing\<close>










section \<open>Fan-out channel\<close>

text \<open>
  The handshake of a socket, and what \<^verbatim>\<open>verifyToken\<close> makes of a token: the name of the
  error it throws, or the decoded payload. The signing secret and the user collection
  are outside the model, so \<open>verify\<close> and the list \<open>users\<close> of existing account ids are
  parameters.
\<close>

record handshake =
  auth_token :: "string option"
  query_token :: "string option"

record decoded =
  d_userId :: oid
  d_type :: "string option"

text \<open>
  \<^verbatim>\<open>socketAuth\<close>: the account the socket is authenticated for, or the message of the
  error that refuses the connection. An empty token is falsy.
\<close>

definition socketAuth ::
  "(string \<Rightarrow> string + decoded) \<Rightarrow> oid list \<Rightarrow> handshake \<Rightarrow> string + oid" where
  "socketAuth verify users hs =
     (let token = (case auth_token hs of
                     Some tk \<Rightarrow> if tk \<noteq> [] then Some tk else query_token hs
                   | None \<Rightarrow> query_token hs)
      in case token of
           None \<Rightarrow> Inl ''Authentication error: No token provided''
         | Some tk \<Rightarrow>
             if tk = [] then Inl ''Authentication error: No token provided''
             else (case verify tk of
                     Inl name \<Rightarrow>
                       if name = ''TokenExpiredError''
                       then Inl ''Authentication error: Token expired''
                       else if name = ''JsonWebTokenError''
                       then Inl ''Authentication error: Invalid token''
                       else Inl ''Authentication error: Authentication failed''
                   | Inr d \<Rightarrow>
                       if d_type d = Some ''refresh''
                       then Inl ''Authentication error: Invalid token type''
                       else if d_userId d \<notin> set users
                       then Inl ''Authentication error: User not found''
                       else Inr (d_userId d)))"

text \<open>A connected socket: its id, the account of \<^verbatim>\<open>socket.user\<close>, the rooms it joined.\<close>

record socket =
  sock_id :: string
  sock_user :: oid
  sock_rooms :: "string list"

text \<open>
  \<^verbatim>\<open>handleConnection\<close>: the socket joins the room of its account. No handler joins
  another room; the room that Socket.IO keeps for every socket under its own id is never
  addressed by \<^verbatim>\<open>emitTaskEvent\<close> and is left out.
\<close>

definition handleConnection :: "string \<Rightarrow> oid \<Rightarrow> socket" where
  "handleConnection sid uid =
     \<lparr> sock_id = sid, sock_user = uid, sock_rooms = [''user:'' @ uid] \<rparr>"

datatype io_event = Connect string handshake | Disconnect string

text \<open>
  The connected sockets of the server. \<^verbatim>\<open>io.use(socketAuth)\<close> runs before the connection
  handler; a socket that disconnects leaves its rooms.
\<close>

fun io_step ::
  "(string \<Rightarrow> string + decoded) \<Rightarrow> oid list \<Rightarrow> socket list \<Rightarrow> io_event \<Rightarrow> socket list" where
  "io_step verify users io (Connect sid hs) =
     (case socketAuth verify users hs of
        Inl e \<Rightarrow> io
      | Inr uid \<Rightarrow> io @ [handleConnection sid uid])"
| "io_step verify users io (Disconnect sid) = filter (\<lambda>k. sock_id k \<noteq> sid) io"

definition io_run ::
  "(string \<Rightarrow> string + decoded) \<Rightarrow> oid list \<Rightarrow> io_event list \<Rightarrow> socket list" where
  "io_run verify users evs = foldl (io_step verify users) [] evs"

text \<open>\<^verbatim>\<open>io.to(room).emit(...)\<close>: the sockets that are in the room of the event.\<close>

definition deliver :: "socket list \<Rightarrow> event \<Rightarrow> socket list" where
  "deliver io e = filter (\<lambda>k. ev_room e \<in> set (sock_rooms k)) io"

text \<open>The account that a request was authenticated for.\<close>

fun requester :: "request \<Rightarrow> oid" where
  "requester (Post uid b newId now) = uid"
| "requester (Put uid idp b now) = uid"
| "requester (Delete uid idp now) = uid"
| "requester (Patch uid idp b now) = uid"

section \<open>Client: task service\<close>

text \<open>A call that the service makes through axios.\<close>

record net_request =
  verb :: string
  url :: string
  payload :: body

text \<open>
  What one call of \<^verbatim>\<open>debounce(key, func, delay)\<close> schedules: the timeout id, which also
  names the promise the call returns, the time the timeout is due, the key, and the
  request that \<^verbatim>\<open>func\<close> sends when the timeout runs it.
\<close>

record timer =
  t_id :: nat
  t_due :: nat
  t_key :: string
  t_request :: net_request

text \<open>
  The error of a rejected axios call, as far as the client reads it:
  \<^verbatim>\<open>error.response?.data?.error?.message\<close> and \<^verbatim>\<open>error.response?.data?.message\<close>.
\<close>

record api_error =
  data_error_message :: "string option"
  data_message :: "string option"

text \<open>
  The state of the module: the clock in milliseconds, the next timeout id,
  \<^verbatim>\<open>debounceMap\<close>, the timeouts that are pending, the calls that await their response, the
  calls sent so far in the order they went out, and the promises settled so far with
  their outcome.
\<close>

record service =
  clock :: nat
  nextTimer :: nat
  debounceMap :: "(string \<times> nat) list"
  timers :: "timer list"
  inflight :: "timer list"
  sent :: "timer list"
  settled :: "(nat \<times> (api_error + task)) list"

definition init_service :: service where
  "init_service = \<lparr> clock = 0, nextTimer = 0, debounceMap = [], timers = [], inflight = [],
     sent = [], settled = [] \<rparr>"

definition clearTimeout :: "nat \<Rightarrow> service \<Rightarrow> service" where
  "clearTimeout tid st = st\<lparr>timers := filter (\<lambda>t. t_id t \<noteq> tid) (timers st)\<rparr>"

text \<open>\<^verbatim>\<open>debounce\<close>: returns the promise, named by the timeout id, and the new state.\<close>

definition debounce :: "string \<Rightarrow> net_request \<Rightarrow> nat \<Rightarrow> service \<Rightarrow> nat \<times> service" where
  "debounce key func delay st =
     (let st1 = (case map_of (debounceMap st) key of
                   Some tid \<Rightarrow> clearTimeout tid st
                 | None \<Rightarrow> st);
          timeoutId = nextTimer st1
      in (timeoutId,
          st1\<lparr>nextTimer := timeoutId + 1,
              timers := timers st1 @
                [\<lparr> t_id = timeoutId, t_due = clock st1 + delay, t_key = key,
                   t_request = func \<rparr>],
              debounceMap := (key, timeoutId) # filter (\<lambda>p. fst p \<noteq> key) (debounceMap st1)\<rparr>))"

text \<open>
  A timeout runs: the callback calls \<^verbatim>\<open>func()\<close>, which sends the request and waits for
  the response.
\<close>

definition fire :: "timer \<Rightarrow> service \<Rightarrow> service" where
  "fire t st = st\<lparr>timers := filter (\<lambda>u. t_id u \<noteq> t_id t) (timers st),
                  sent := sent st @ [t], inflight := inflight st @ [t]\<rparr>"

text \<open>Time passes: the timeouts that have become due run, the earliest first.\<close>

definition advance :: "nat \<Rightarrow> service \<Rightarrow> service" where
  "advance dt st =
     (let st1 = st\<lparr>clock := clock st + dt\<rparr>
      in fold fire (sort_key t_due (filter (\<lambda>t. t_due t \<le> clock st1) (timers st1))) st1)"

text \<open>
  The response of a call arrives: the callback resumes after \<^verbatim>\<open>await func()\<close>, settles
  the promise, and its \<^verbatim>\<open>finally\<close> deletes the key from \<^verbatim>\<open>debounceMap\<close>.
\<close>

definition respond :: "nat \<Rightarrow> api_error + task \<Rightarrow> service \<Rightarrow> service" where
  "respond tid outcome st =
     (case find (\<lambda>c. t_id c = tid) (inflight st) of
        None \<Rightarrow> st
      | Some c \<Rightarrow>
          st\<lparr>inflight := filter (\<lambda>u. t_id u \<noteq> tid) (inflight st),
             settled := settled st @ [(tid, outcome)],
             debounceMap := filter (\<lambda>p. fst p \<noteq> t_key c) (debounceMap st)\<rparr>)"

definition cancelPendingRequests :: "service \<Rightarrow> service" where
  "cancelPendingRequests st =
     (fold clearTimeout (map snd (debounceMap st)) st)\<lparr>debounceMap := []\<rparr>"

definition status_request :: "oid \<Rightarrow> string \<Rightarrow> net_request" where
  "status_request taskId st =
     \<lparr> verb = ''PATCH'', url = ''/tasks/'' @ taskId @ ''/status'', payload = status_body st \<rparr>"

definition taskService_updateTaskStatus :: "oid \<Rightarrow> string \<Rightarrow> service \<Rightarrow> nat \<times> service" where
  "taskService_updateTaskStatus taskId st svc =
     debounce (''status-'' @ taskId) (status_request taskId st) 200 svc"

definition taskService_updateTask :: "oid \<Rightarrow> body \<Rightarrow> service \<Rightarrow> nat \<times> service" where
  "taskService_updateTask taskId taskData svc =
     debounce (''update-'' @ taskId)
       \<lparr> verb = ''PUT'', url = ''/tasks/'' @ taskId, payload = taskData \<rparr> 300 svc"

text \<open>What can happen to the module, and a history of it from the initial state.\<close>

datatype service_event =
    UpdateStatus oid string
  | Update oid body
  | Advance nat
  | Respond nat "api_error + task"
  | CancelPending

fun service_step :: "service \<Rightarrow> service_event \<Rightarrow> service" where
  "service_step st (UpdateStatus taskId s) = snd (taskService_updateTaskStatus taskId s st)"
| "service_step st (Update taskId b) = snd (taskService_updateTask taskId b st)"
| "service_step st (Advance dt) = advance dt st"
| "service_step st (Respond tid outcome) = respond tid outcome st"
| "service_step st CancelPending = cancelPendingRequests st"

definition service_run :: "service \<Rightarrow> service_event list \<Rightarrow> service" where
  "service_run st evs = foldl service_step st evs"

text \<open>
  Well-formedness of the module's state: ids are below \<open>nextTimer\<close>; a timeout id is
  pending, or awaiting its response, or neither, and at most once; a pending timeout has
  not been sent nor settled; a call that awaits its response has not been settled.
\<close>

definition service_ok :: "service \<Rightarrow> bool" where
  "service_ok st =
     ((\<forall>t \<in> set (timers st) \<union> set (inflight st) \<union> set (sent st). t_id t < nextTimer st)
      \<and> (\<forall>p \<in> set (settled st). fst p < nextTimer st)
      \<and> distinct (map t_id (timers st) @ map t_id (inflight st))
      \<and> distinct (map t_id (sent st))
      \<and> (\<forall>t \<in> set (timers st). t_id t \<notin> t_id ` set (sent st))
      \<and> (\<forall>t \<in> set (timers st) \<union> set (inflight st). t_id t \<notin> fst ` set (settled st))
      \<and> set (inflight st) \<subseteq> set (sent st))"


text \<open>The first step of \<^verbatim>\<open>debounce\<close>: the timeout registered under the key is cleared.\<close>

definition cleared :: "string \<Rightarrow> service \<Rightarrow> service" where
  "cleared key st = (case map_of (debounceMap st) key of
                   Some tid \<Rightarrow> clearTimeout tid st
                 | None \<Rightarrow> st)"

text \<open>
  A burst of calls of \<^verbatim>\<open>debounce\<close> for one key: each call is followed by \<open>gap\<close>
  milliseconds in which nothing else happens to the module.
\<close>

fun burst :: "string \<Rightarrow> nat \<Rightarrow> (net_request \<times> nat) list \<Rightarrow> service \<Rightarrow> service" where
  "burst key delay [] st = st"
| "burst key delay ((func, gap) # rest) st =
     burst key delay rest (advance gap (snd (debounce key func delay st)))"

text \<open>Every pending timeout of the key is the one registered under the key.\<close>

definition registered :: "string \<Rightarrow> service \<Rightarrow> bool" where
  "registered key st =
     (\<forall>t \<in> set (timers st). t_key t = key \<longrightarrow> map_of (debounceMap st) key = Some (t_id t))"

section \<open>Client: dashboard\<close>

text \<open>
  The state of \<^verbatim>\<open>Dashboard.jsx\<close> that a lane move touches: the task list, the messages
  shown with \<^verbatim>\<open>alert\<close>, and the service module. \<open>awaiting\<close> holds the suspended calls of
  \<^verbatim>\<open>handleTaskDrop\<close>: the promise each one awaits and the \<^verbatim>\<open>originalTasks\<close> it captured.
\<close>

record dashboard =
  tasks :: "task list"
  alerts :: "string list"
  awaiting :: "(nat \<times> task list) list"
  svc :: service

definition init_dashboard :: "task list \<Rightarrow> dashboard" where
  "init_dashboard ts = \<lparr> tasks = ts, alerts = [], awaiting = [], svc = init_service \<rparr>"

text \<open>The message of the \<^verbatim>\<open>catch\<close> block; an empty string is falsy.\<close>

definition errorMessage :: "api_error \<Rightarrow> string" where
  "errorMessage error =
     (case data_error_message error of
        Some m \<Rightarrow> if m \<noteq> [] then m
                  else (case data_message error of
                          Some m' \<Rightarrow> if m' \<noteq> [] then m'
                                     else ''Failed to update task status. Please try again.''
                        | None \<Rightarrow> ''Failed to update task status. Please try again.'')
      | None \<Rightarrow> (case data_message error of
                   Some m' \<Rightarrow> if m' \<noteq> [] then m'
                              else ''Failed to update task status. Please try again.''
                 | None \<Rightarrow> ''Failed to update task status. Please try again.''))"

text \<open>
  \<^verbatim>\<open>handleTaskDrop\<close> up to its \<^verbatim>\<open>await\<close>: the optimistic update and the call of the
  service.
\<close>

definition handleTaskDrop :: "oid \<Rightarrow> string \<Rightarrow> dashboard \<Rightarrow> dashboard" where
  "handleTaskDrop taskId newStatus d =
     (case find (\<lambda>t. task_id t = taskId) (tasks d) of
        None \<Rightarrow> d
      | Some taskToMove \<Rightarrow>
          if status taskToMove = newStatus then d
          else
            (let originalTasks = tasks d;
                 now = clock (svc d);
                 updatedTask = taskToMove
                   \<lparr>status := newStatus, updatedAt := now,
                    completedAt :=
                      (if newStatus = ''done'' then Some now
                       else if completedAt taskToMove \<noteq> None then None
                       else completedAt taskToMove)\<rparr>;
                 (p, svc') = taskService_updateTaskStatus taskId newStatus (svc d)
             in d\<lparr>tasks := map (\<lambda>t. if task_id t = taskId then updatedTask else t) (tasks d),
                  awaiting := awaiting d @ [(p, originalTasks)],
                  svc := svc'\<rparr>))"

text \<open>
  \<^verbatim>\<open>handleTaskDrop\<close> after its \<^verbatim>\<open>await\<close>, when the promise \<open>p\<close> settles: nothing more on
  success, the \<^verbatim>\<open>catch\<close> block on failure.
\<close>

definition resume :: "nat \<Rightarrow> api_error + task \<Rightarrow> dashboard \<Rightarrow> dashboard" where
  "resume p outcome d =
     (case map_of (awaiting d) p of
        None \<Rightarrow> d
      | Some originalTasks \<Rightarrow>
          (let d1 = d\<lparr>awaiting := filter (\<lambda>a. fst a \<noteq> p) (awaiting d)\<rparr>
           in case outcome of
                Inr result \<Rightarrow> d1
              | Inl error \<Rightarrow> d1\<lparr>tasks := originalTasks,
                                alerts := alerts d1 @ [errorMessage error]\<rparr>))"

text \<open>
  What happens to the dashboard: the user drops a task on a lane, time passes, or the
  response of a call that is in flight arrives.
\<close>

datatype ui_event = Drop oid string | Tick nat | Response nat "api_error + task"

fun dashboard_step :: "dashboard \<Rightarrow> ui_event \<Rightarrow> dashboard" where
  "dashboard_step d (Drop taskId newStatus) = handleTaskDrop taskId newStatus d"
| "dashboard_step d (Tick dt) = d\<lparr>svc := advance dt (svc d)\<rparr>"
| "dashboard_step d (Response p outcome) =
     (if p \<in> t_id ` set (inflight (svc d))
      then resume p outcome (d\<lparr>svc := respond p outcome (svc d)\<rparr>)
      else d)"

definition dashboard_run :: "dashboard \<Rightarrow> ui_event list \<Rightarrow> dashboard" where
  "dashboard_run d evs = foldl dashboard_step d evs"

text \<open>Well-formedness of the dashboard: of its service, and the awaited promises exist.\<close>

definition dashboard_ok :: "dashboard \<Rightarrow> bool" where
  "dashboard_ok d =
     (service_ok (svc d) \<and> (\<forall>a \<in> set (awaiting d). fst a < nextTimer (svc d)))"

text \<open>The call \<open>p\<close> has been answered: it is neither pending nor in flight nor awaited.\<close>

definition finished :: "nat \<Rightarrow> dashboard \<Rightarrow> bool" where
  "finished p d =
     (p < nextTimer (svc d) \<and> p \<notin> t_id ` set (timers (svc d))
      \<and> p \<notin> t_id ` set (inflight (svc d)) \<and> p \<notin> fst ` set (awaiting d))"

subsection \<open>Example data\<close>

text \<open>A small board of account \<open>u1\<close>, built through the API, for the concrete checks.\<close>

definition example_body :: body where
  "example_body = \<lparr> b_title = Some ''a'', b_description = None, b_status = None,
     b_position = None, b_completedAt = None \<rparr>"

definition example_history :: "request list" where
  "example_history = [Post ''u1'' example_body ''t1'' 10, Post ''u1'' example_body ''t2'' 11]"

definition example_store :: store where
  "example_store =
     [\<lparr> task_id = ''t1'', title = ''a'', description = [], status = ''todo'', userId = ''u1'',
        position = 0, completedAt = None, createdAt = 10, updatedAt = 10 \<rparr>,
      \<lparr> task_id = ''t2'', title = ''a'', description = [], status = ''todo'', userId = ''u1'',
        position = 1, completedAt = None, createdAt = 11, updatedAt = 11 \<rparr>]"

text \<open>Two sessions of \<open>u1\<close> and one of \<open>u2\<close> on the channel.\<close>

definition example_verify :: "string \<Rightarrow> string + decoded" where
  "example_verify tk =
     (if tk = ''tokenA'' then Inr \<lparr> d_userId = ''u1'', d_type = None \<rparr>
      else if tk = ''tokenB'' then Inr \<lparr> d_userId = ''u2'', d_type = None \<rparr>
      else Inl ''JsonWebTokenError'')"

definition example_connections :: "io_event list" where
  "example_connections =
     [Connect ''s1'' \<lparr> auth_token = Some ''tokenA'', query_token = None \<rparr>,
      Connect ''s2'' \<lparr> auth_token = None, query_token = Some ''tokenA'' \<rparr>,
      Connect ''s3'' \<lparr> auth_token = Some ''tokenB'', query_token = None \<rparr>,
      Connect ''s4'' \<lparr> auth_token = Some ''forged'', query_token = None \<rparr>]"

section \<open>Verification\<close>

subsection \<open>Evaluation\<close>

declare bit_length.simps [simp del]

lemma js_number_exact: "\<bar>q\<bar> \<le> 2 ^ 53 \<Longrightarrow> js_number q = q"
  by (simp add: js_number_def)

lemmas eval_defs =
  route_post_def route_put_def route_patch_def route_delete_def
  validateCreateTask_def validateUpdateTask_def validateUpdateTaskStatus_def
  validateTaskOwnership_def sanitized_def validation_failed_def failed_def
  createTask_def updateTask_def updateTaskStatus_def deleteTask_def
  lastTask_def greater_position_def save_new_def save_existing_def schema_errors_def
  isModified_def pre_save_def replace_task_def emitTaskEvent_def
  trim_def is_space_def statuses_def status_body_def js_plus_def js_number_exact
  example_body_def example_history_def example_store_def Let_def

subsection \<open>Rank assignment on create\<close>

lemma trim_idem: "trim (trim s) = trim s"
proof -
  define a where "a = dropWhile is_space s"
  define b where "b = dropWhile is_space (rev a)"
  have "dropWhile is_space (rev b) = rev b"
  proof (cases "b = []")
    case True
    then show ?thesis by simp
  next
    case False
    then obtain x where x: "x \<in> set (rev a)" "\<not> is_space x"
      unfolding b_def by (auto simp: dropWhile_eq_Nil_conv)
    then have "last b = last (rev a)"
      unfolding b_def by (rule dropWhile_last)
    moreover have "a \<noteq> []" using x by auto
    ultimately have "hd (rev b) = hd a"
      using False by (simp add: hd_rev last_rev)
    moreover have "\<not> is_space (hd a)"
      using \<open>a \<noteq> []\<close> unfolding a_def by (rule hd_dropWhile)
    ultimately show ?thesis
      by (simp add: dropWhile_eq_self_iff)
  qed
  moreover have "dropWhile is_space b = b"
    unfolding b_def by (simp add: dropWhile_idem)
  ultimately show ?thesis
    by (simp add: trim_def a_def b_def)
qed

lemma length_trim_le: "length (trim s) \<le> length s"
proof -
  have "length (dropWhile is_space (rev (dropWhile is_space s))) \<le> length (dropWhile is_space s)"
    using length_dropWhile_le [of is_space "rev (dropWhile is_space s)"] by simp
  also have "\<dots> \<le> length s" by (rule length_dropWhile_le)
  finally show ?thesis by (simp add: trim_def)
qed

lemma lastTask_fold:
  "fold greater_position xs (Some a) = Some l
   \<Longrightarrow> l \<in> set (a # xs) \<and> (\<forall>u \<in> set (a # xs). position u \<le> position l)"
proof (induction xs arbitrary: a)
  case Nil
  then show ?case by simp
next
  case (Cons x xs)
  let ?a = "if position a < position x then x else a"
  have "greater_position x (Some a) = Some ?a"
    by (simp add: greater_position_def)
  with Cons.prems have "fold greater_position xs (Some ?a) = Some l"
    by simp
  from Cons.IH [OF this]
  have 1: "l \<in> set (?a # xs)" and 2: "\<forall>u \<in> set (?a # xs). position u \<le> position l"
    by blast+
  from 1 have "l \<in> set (a # x # xs)" by (auto split: if_splits)
  moreover from 2 have "position ?a \<le> position l" by simp
  then have "position a \<le> position l \<and> position x \<le> position l"
    by (simp split: if_splits)
  ultimately show ?case using 2 by simp
qed

lemma lastTask_fold_Some: "\<exists>l. fold greater_position xs (Some a) = Some l"
proof (induction xs arbitrary: a)
  case Nil
  then show ?case by simp
next
  case (Cons x xs)
  have "\<exists>b. greater_position x (Some a) = Some b"
    by (simp add: greater_position_def)
  then show ?case using Cons.IH by auto
qed

lemma lastTask_None:
  "lastTask s uid st = None \<longleftrightarrow> \<not> (\<exists>t \<in> set s. userId t = uid \<and> status t = st)"
proof (cases "filter (\<lambda>t. userId t = uid \<and> status t = st) s")
  case Nil
  then show ?thesis by (simp add: lastTask_def filter_empty_conv)
next
  case (Cons a xs)
  then have "a \<in> set (filter (\<lambda>t. userId t = uid \<and> status t = st) s)" by simp
  then have "\<exists>t \<in> set s. userId t = uid \<and> status t = st" by auto
  moreover have "lastTask s uid st \<noteq> None"
    using lastTask_fold_Some [of xs a] Cons
    by (auto simp: lastTask_def greater_position_def)
  ultimately show ?thesis by simp
qed

lemma lastTask_Some:
  assumes "lastTask s uid st = Some l"
  shows "l \<in> set s \<and> userId l = uid \<and> status l = st \<and>
         position l = Max (position ` {t \<in> set s. userId t = uid \<and> status t = st})"
proof -
  define L where "L = filter (\<lambda>t. userId t = uid \<and> status t = st) s"
  have f: "fold greater_position L None = Some l"
    using assms by (simp add: lastTask_def L_def)
  then have "L \<noteq> []" by auto
  then obtain a xs where ax: "L = a # xs" by (cases L) simp_all
  have "greater_position a None = Some a" by (simp add: greater_position_def)
  with f ax have "fold greater_position xs (Some a) = Some l" by simp
  from lastTask_fold [OF this]
  have l: "l \<in> set L" "\<forall>u \<in> set L. position u \<le> position l"
    unfolding ax by blast+
  have S: "{t \<in> set s. userId t = uid \<and> status t = st} = set L"
    unfolding L_def by simp
  have "Max (position ` set L) = position l"
  proof (rule Max_eqI)
    show "finite (position ` set L)" by simp
    show "\<And>y. y \<in> position ` set L \<Longrightarrow> y \<le> position l" using l(2) by blast
    show "position l \<in> position ` set L" using l(1) by blast
  qed
  moreover have "l \<in> set s \<and> userId l = uid \<and> status l = st"
    using l(1) unfolding L_def by simp
  ultimately show ?thesis unfolding S by simp
qed

lemma lastTask_snoc:
  assumes "userId t = uid" "status t = st"
    and "position t = (case lastTask s uid st of Some l \<Rightarrow> position l + 1 | None \<Rightarrow> 0)"
  shows "lastTask (s @ [t]) uid st = Some t"
proof (cases "lastTask s uid st")
  case None
  then show ?thesis using assms by (simp add: lastTask_def greater_position_def)
next
  case (Some l)
  then show ?thesis using assms by (simp add: lastTask_def greater_position_def)
qed

lemma validateCreateTask_ok:
  assumes "validateCreateTask b = []"
  shows "\<exists>x. b_title b = Some x \<and> trim x \<noteq> [] \<and> length (trim x) \<le> 200"
    and "\<And>d. b_description b = Some d \<Longrightarrow> length (trim d) \<le> 1000"
    and "\<And>x. b_status b = Some x \<Longrightarrow> x \<in> set statuses"
    and "\<And>p. b_position b = Some p \<Longrightarrow> 0 \<le> p"
proof -
  from assms have 1: "(let ttl = trim (case b_title b of None \<Rightarrow> [] | Some x \<Rightarrow> x)
      in if length ttl < 1 \<or> 200 < length ttl then [''title''] else []) = []"
    and 2: "(case b_description b of None \<Rightarrow> []
      | Some d \<Rightarrow> if 1000 < length (trim d) then [''description''] else []) = []"
    and 3: "(case b_status b of None \<Rightarrow> []
      | Some st \<Rightarrow> if st \<in> set statuses then [] else [''status'']) = []"
    and 4: "(case b_position b of None \<Rightarrow> []
      | Some p \<Rightarrow> if 0 \<le> p then [] else [''position'']) = []"
    by (simp_all add: validateCreateTask_def)
  from 1 show "\<exists>x. b_title b = Some x \<and> trim x \<noteq> [] \<and> length (trim x) \<le> 200"
    by (cases "b_title b") (auto simp: Let_def trim_def split: if_splits)
  from 2 show "\<And>d. b_description b = Some d \<Longrightarrow> length (trim d) \<le> 1000"
    by (auto split: if_splits)
  from 3 show "\<And>x. b_status b = Some x \<Longrightarrow> x \<in> set statuses"
    by (auto split: if_splits)
  from 4 show "\<And>p. b_position b = Some p \<Longrightarrow> 0 \<le> p"
    by (auto split: if_splits)
qed

lemma todo_status: "''todo'' \<in> set statuses"
  by (simp add: statuses_def)

lemma route_post_ok:
  assumes v: "validateCreateTask b = []" and p: "b_position b = None"
    and fresh: "newId \<notin> task_id ` set s"
    and st: "st = (case b_status b of None \<Rightarrow> ''todo'' | Some x \<Rightarrow> x)"
    and nonneg: "0 \<le> next_position s uid st"
  shows "\<exists>t. route_post s uid b newId now =
            \<lparr> response = Inr t, stored = s @ [t],
              emitted = emitTaskEvent uid ''task-created'' t now \<rparr>
          \<and> position t = next_position s uid st \<and> userId t = uid \<and> status t = st
          \<and> task_id t = newId"
proof -
  from validateCreateTask_ok(1) [OF v] obtain x where
    x: "b_title b = Some x" "trim x \<noteq> []" "length (trim x) \<le> 200" by blast
  define dsc where "dsc = (case b_description b of None \<Rightarrow> [] | Some d \<Rightarrow> trim (trim d))"
  have dl: "length dsc \<le> 1000"
    using validateCreateTask_ok(2) [OF v]
    by (cases "b_description b") (simp_all add: dsc_def trim_idem)
  have stv: "st \<in> set statuses"
    using validateCreateTask_ok(3) [OF v] st todo_status
    by (cases "b_status b") simp_all
  define t0 where "t0 = \<lparr> task_id = newId, title = trim x, description = dsc,
      status = st, userId = uid, position = next_position s uid st, completedAt = None,
      createdAt = now, updatedAt = now \<rparr>"
  have se: "schema_errors (\<lambda>p. True) t0 = []"
    using x dl stv nonneg by (simp add: schema_errors_def t0_def)
  have sn: "save_new s newId now (trim x) (map_option trim (b_description b)) st uid
              (next_position s uid st) = Inr (pre_save True now t0)"
  proof -
    have "(case map_option trim (b_description b) of None \<Rightarrow> [] | Some d \<Rightarrow> trim d) = dsc"
      by (cases "b_description b") (simp_all add: dsc_def)
    then show ?thesis
      using se fresh unfolding save_new_def t0_def [symmetric] Let_def
      by (simp add: trim_idem t0_def [symmetric])
  qed
  let ?t = "pre_save True now t0"
  have ct: "createTask s uid (sanitized b) newId now =
            \<lparr> response = Inr ?t, stored = s @ [?t],
              emitted = emitTaskEvent uid ''task-created'' ?t now \<rparr>"
    using sn x p st
    by (simp add: createTask_def sanitized_def next_position_def Let_def)
  have props: "position ?t = next_position s uid st \<and> userId ?t = uid \<and> status ?t = st
          \<and> task_id ?t = newId"
    by (simp add: pre_save_def t0_def)
  show ?thesis
    using ct props v by (simp add: route_post_def)
qed

lemma js_plus_exact: "\<bar>a + b\<bar> \<le> 2 ^ 53 \<Longrightarrow> js_plus a b = a + b"
  by (simp add: js_plus_def js_number_exact)

lemma spec_rank_lastTask:
  "lastTask s uid st = None \<Longrightarrow> spec_rank s uid st = 0"
  "lastTask s uid st = Some l \<Longrightarrow> spec_rank s uid st = position l + 1"
proof -
  assume None: "lastTask s uid st = None"
  then have "filter (\<lambda>t. userId t = uid \<and> status t = st) s = []"
    using lastTask_None [of s uid st] by (simp add: filter_empty_conv)
  then show "spec_rank s uid st = 0" by (simp add: spec_rank_def)
next
  assume Some: "lastTask s uid st = Some l"
  from lastTask_Some [OF Some]
  have l: "l \<in> set s" "userId l = uid" "status l = st"
    and m: "position l = Max (position ` {t \<in> set s. userId t = uid \<and> status t = st})"
    by blast+
  have ne: "filter (\<lambda>t. userId t = uid \<and> status t = st) s \<noteq> []"
    using l by (auto simp: filter_empty_conv)
  have "set (map position (filter (\<lambda>t. userId t = uid \<and> status t = st) s))
        = position ` {t \<in> set s. userId t = uid \<and> status t = st}"
    by simp
  with m ne show "spec_rank s uid st = position l + 1" by (simp add: spec_rank_def)
qed

lemma spec_rank_nonneg:
  assumes "\<forall>t \<in> set s. userId t = uid \<and> status t = st \<longrightarrow> 0 \<le> position t"
  shows "0 \<le> spec_rank s uid st"
proof (cases "lastTask s uid st")
  case None
  then show ?thesis by (simp add: spec_rank_lastTask)
next
  case (Some l)
  from lastTask_Some [OF Some] assms have "0 \<le> position l" by blast
  with Some show ?thesis by (simp add: spec_rank_lastTask)
qed

lemma next_position_spec:
  assumes "\<forall>t \<in> set s. userId t = uid \<and> status t = st \<longrightarrow> 0 \<le> position t"
    and "spec_rank s uid st \<le> 2 ^ 53"
  shows "next_position s uid st = spec_rank s uid st"
proof (cases "lastTask s uid st")
  case None
  then show ?thesis by (simp add: next_position_def spec_rank_lastTask)
next
  case (Some l)
  from lastTask_Some [OF Some] assms(1) have "0 \<le> position l" by blast
  moreover from Some assms(2) have "position l + 1 \<le> 2 ^ 53"
    by (simp add: spec_rank_lastTask)
  ultimately have "\<bar>position l + 1\<bar> \<le> 2 ^ 53" by simp
  then have "js_plus (position l) 1 = position l + 1" by (rule js_plus_exact)
  with Some show ?thesis by (simp add: next_position_def spec_rank_lastTask)
qed

lemma create_seq_positions:
  assumes "\<forall>r \<in> set rs. validateCreateTask (fst r) = [] \<and> b_position (fst r) = None
              \<and> (case b_status (fst r) of None \<Rightarrow> ''todo'' | Some x \<Rightarrow> x) = st"
    and "distinct (map (\<lambda>r. fst (snd r)) rs)"
    and "\<forall>r \<in> set rs. fst (snd r) \<notin> task_id ` set s"
    and "\<forall>t \<in> set s. userId t = uid \<and> status t = st \<longrightarrow> 0 \<le> position t"
    and "spec_rank s uid st + int (length rs) \<le> 2 ^ 53 + 1"
  shows "map (map_sum id position) (fst (create_seq s uid rs))
         = map (\<lambda>k. Inr (spec_rank s uid st + int k)) [0..<length rs]"
  using assms
proof (induction rs arbitrary: s)
  case Nil
  then show ?case by simp
next
  case (Cons r rs)
  obtain b newId now where r: "r = (b, newId, now)" by (cases r) auto
  from Cons.prems(1) r have v: "validateCreateTask b = []" and p: "b_position b = None"
    and st: "st = (case b_status b of None \<Rightarrow> ''todo'' | Some x \<Rightarrow> x)" by simp_all
  from Cons.prems(3) r have fresh: "newId \<notin> task_id ` set s" by simp
  have nn: "0 \<le> spec_rank s uid st" using spec_rank_nonneg [OF Cons.prems(4)] .
  from Cons.prems(5) have le: "spec_rank s uid st \<le> 2 ^ 53" by simp
  have np: "next_position s uid st = spec_rank s uid st"
    using next_position_spec [OF Cons.prems(4) le] .
  from nn np have nn': "0 \<le> next_position s uid st" by simp
  from route_post_ok [OF v p fresh st nn', of now]
  obtain t where rp: "route_post s uid b newId now =
            \<lparr> response = Inr t, stored = s @ [t],
              emitted = emitTaskEvent uid ''task-created'' t now \<rparr>"
    and t: "position t = next_position s uid st" "userId t = uid" "status t = st"
      "task_id t = newId" by blast
  have pt: "position t = spec_rank s uid st" using t(1) np by simp
  have "position t = (case lastTask s uid st of Some l \<Rightarrow> position l + 1 | None \<Rightarrow> 0)"
    unfolding pt by (cases "lastTask s uid st") (simp_all add: spec_rank_lastTask)
  from lastTask_snoc [OF t(2,3) this]
  have lt: "lastTask (s @ [t]) uid st = Some t" .
  have sr: "spec_rank (s @ [t]) uid st = spec_rank s uid st + 1"
    using spec_rank_lastTask(2) [OF lt] pt by simp
  have 1: "\<forall>r \<in> set rs. validateCreateTask (fst r) = [] \<and> b_position (fst r) = None
              \<and> (case b_status (fst r) of None \<Rightarrow> ''todo'' | Some x \<Rightarrow> x) = st"
    using Cons.prems(1) by simp
  have 2: "distinct (map (\<lambda>r. fst (snd r)) rs)" using Cons.prems(2) by simp
  have 3: "\<forall>r \<in> set rs. fst (snd r) \<notin> task_id ` set (s @ [t])"
    using Cons.prems(2,3) t(4) r by force
  have 4: "\<forall>u \<in> set (s @ [t]). userId u = uid \<and> status u = st \<longrightarrow> 0 \<le> position u"
    using Cons.prems(4) pt nn by auto
  have 5: "spec_rank (s @ [t]) uid st + int (length rs) \<le> 2 ^ 53 + 1"
    using Cons.prems(5) sr by simp
  from Cons.IH [OF 1 2 3 4 5]
  have ih: "map (map_sum id position) (fst (create_seq (s @ [t]) uid rs))
         = map (\<lambda>k. Inr (spec_rank s uid st + 1 + int k)) [0..<length rs]"
    unfolding sr .
  have "fst (create_seq s uid (r # rs)) = Inr t # fst (create_seq (s @ [t]) uid rs)"
    using rp r by (simp add: Let_def split: prod.splits)
  then have "map (map_sum id position) (fst (create_seq s uid (r # rs)))
      = Inr (spec_rank s uid st) # map (\<lambda>k. Inr (spec_rank s uid st + 1 + int k)) [0..<length rs]"
    using ih pt by simp
  also have "\<dots> = map (\<lambda>k. Inr (spec_rank s uid st + int k)) [0..<length (r # rs)]"
    by (simp add: map_upt_Suc add.assoc del: upt_Suc)
  finally show ?case .
qed

lemma bit_length_example: "bit_length 9007199254740993 = 54"
  by (simp add: bit_length.simps)

lemma js_number_example: "js_number 9007199254740993 = 9007199254740992"
  by (simp add: js_number_def bit_length_example Let_def)

text \<open>
  Claim C1 as stated fails: \<^verbatim>\<open>lastTask.position + 1\<close> is an addition of JavaScript
  Numbers. A task is created at position \<open>2 ^ 53\<close>, which the validators accept; the next
  task created in the lane without a position is given \<open>2 ^ 53\<close> again, not the maximum
  plus one.
\<close>

theorem createTask_rank_beyond_exact_integers:
  "map_sum id position
     (response (route_post
        (run [] [Post ''u1'' (example_body\<lparr>b_position := Some 9007199254740992\<rparr>) ''t1'' 10])
        ''u1'' example_body ''t2'' 11))
   = Inr 9007199254740992"
  by (simp add: eval_defs js_number_example)

text \<open>
  Claim C1, amended. A run of \<^verbatim>\<open>POST /tasks\<close> requests of one account into one lane, none
  of them carrying a position, is answered with the ranks \<open>r, r + 1, r + 2, \<dots>\<close> in the
  order of creation, where \<open>r\<close> is one past the greatest rank of the owner's tasks in that
  lane before the run and 0 when the lane was empty, as long as the ranks stay within the
  integers that a JavaScript Number holds exactly: the last rank \<open>r + N - 1\<close> of a run of
  \<open>N\<close> requests is at most \<open>2 ^ 53\<close>. A single request is the run of length one; a run
  into an empty lane gets \<open>0, \<dots>, N - 1\<close>. The requests are those that reach the chain of
  the route and pass its validation, their fresh \<^verbatim>\<open>_id\<close>s are distinct, and the ranks
  already in the lane are not negative.
\<close>

theorem createTask_rank_assignment:
  assumes "\<forall>r \<in> set rs. validateCreateTask (fst r) = [] \<and> b_position (fst r) = None
              \<and> (case b_status (fst r) of None \<Rightarrow> ''todo'' | Some x \<Rightarrow> x) = st"
    and "distinct (map (\<lambda>r. fst (snd r)) rs)"
    and "\<forall>r \<in> set rs. fst (snd r) \<notin> task_id ` set s"
    and "\<forall>t \<in> set s. userId t = uid \<and> status t = st \<longrightarrow> 0 \<le> position t"
    and "spec_rank s uid st + int (length rs) \<le> 2 ^ 53 + 1"
  shows "map (map_sum id position) (fst (create_seq s uid rs))
         = map (\<lambda>k. Inr (spec_rank s uid st + int k)) [0..<length rs]"
  using assms by (rule create_seq_positions)

theorem createTask_rank_assignment_witness:
  "map (map_sum id position)
     (fst (create_seq
        [\<lparr> task_id = ''t0'', title = ''old'', description = [], status = ''todo'',
           userId = ''u1'', position = 5, completedAt = None, createdAt = 1, updatedAt = 1 \<rparr>]
        ''u1''
        [(\<lparr> b_title = Some ''a'', b_description = None, b_status = None, b_position = None,
            b_completedAt = None \<rparr>, ''t1'', 10),
         (\<lparr> b_title = Some ''b'', b_description = None, b_status = Some ''todo'',
            b_position = None, b_completedAt = None \<rparr>, ''t2'', 20)]))
   = [Inr 6, Inr 7]"
  using createTask_rank_assignment [of
        "[(\<lparr> b_title = Some ''a'', b_description = None, b_status = None, b_position = None,
            b_completedAt = None \<rparr>, ''t1'', 10),
         (\<lparr> b_title = Some ''b'', b_description = None, b_status = Some ''todo'',
            b_position = None, b_completedAt = None \<rparr>, ''t2'', 20)]"
        "''todo''"
        "[\<lparr> task_id = ''t0'', title = ''old'', description = [], status = ''todo'',
           userId = ''u1'', position = 5, completedAt = None, createdAt = 1, updatedAt = 1 \<rparr>]"
        "''u1''"]
  by (simp add: validateCreateTask_def trim_def is_space_def statuses_def spec_rank_def upt_rec)

subsection \<open>The mutation routes\<close>

lemma find_SomeD: "find P xs = Some x \<Longrightarrow> x \<in> set xs \<and> P x"
  by (induction xs) (auto split: if_splits)

lemma validateTaskOwnership_Inr:
  assumes "validateTaskOwnership s uid idp = Inr old"
  shows "old \<in> set s \<and> userId old = uid \<and> idp = Some (task_id old)"
proof (cases idp)
  case None
  with assms show ?thesis by (simp add: validateTaskOwnership_def)
next
  case (Some i)
  with assms have "find (\<lambda>t. task_id t = i \<and> userId t = uid) s = Some old"
    by (simp add: validateTaskOwnership_def split: option.splits)
  from find_SomeD [OF this] Some show ?thesis by simp
qed

lemma pre_save_fields:
  "task_id (pre_save m now t) = task_id t"
  "userId (pre_save m now t) = userId t"
  "position (pre_save m now t) = position t"
  "status (pre_save m now t) = status t"
  "title (pre_save m now t) = title t"
  "description (pre_save m now t) = description t"
  "createdAt (pre_save m now t) = createdAt t"
  by (simp_all add: pre_save_def)

lemma pre_save_completedAt:
  "completedAt (pre_save m now t) =
     (if m then (if status t = ''done''
                 then (case completedAt t of None \<Rightarrow> Some now | Some c \<Rightarrow> Some c)
                 else None)
      else completedAt t)"
  by (cases "completedAt t") (simp_all add: pre_save_def)

lemma save_existing_cases:
  assumes "save_existing now old new = Inr t'"
  shows "t' = new \<and> status new = status old \<and> position new = position old
         \<or> t' = (pre_save (status new \<noteq> status old) now new)\<lparr>updatedAt := now\<rparr>"
  using assms
  by (auto simp: save_existing_def isModified_def split: if_splits)

lemma save_existing_frame:
  assumes "save_existing now old new = Inr t'"
  shows "task_id t' = task_id new \<and> userId t' = userId new \<and> position t' = position new
         \<and> status t' = status new \<and> title t' = title new \<and> description t' = description new
         \<and> createdAt t' = createdAt new"
  using save_existing_cases [OF assms]
  by (auto simp: pre_save_fields)


lemma updateTask_success:
  assumes "response (updateTask s uid old b now) = Inr t"
  shows "\<exists>new. save_existing now old new = Inr t \<and> completedAt new = completedAt old
           \<and> task_id new = task_id old \<and> userId new = userId old
           \<and> (b_position b = None \<longrightarrow> position new = position old)
           \<and> stored (updateTask s uid old b now) = replace_task t s
           \<and> emitted (updateTask s uid old b now) = emitTaskEvent uid ''task-updated'' t now"
proof -
  define new where "new =
     (let t1 = (case b_title b of None \<Rightarrow> old | Some x \<Rightarrow> old\<lparr>title := trim x\<rparr>);
          t2 = (case b_description b of None \<Rightarrow> t1 | Some x \<Rightarrow> t1\<lparr>description := trim x\<rparr>);
          t3 = (case b_status b of None \<Rightarrow> t2 | Some x \<Rightarrow> t2\<lparr>status := x\<rparr>)
      in (case b_position b of None \<Rightarrow> t3 | Some x \<Rightarrow> t3\<lparr>position := x\<rparr>))"
  have u: "updateTask s uid old b now =
      (case save_existing now old new of
           Inl e \<Rightarrow> failed s e
         | Inr t' \<Rightarrow> \<lparr> response = Inr t', stored = replace_task t' s,
                       emitted = emitTaskEvent uid ''task-updated'' t' now \<rparr>)"
    by (simp add: updateTask_def new_def Let_def)
  have f: "completedAt new = completedAt old \<and> task_id new = task_id old
      \<and> userId new = userId old \<and> (b_position b = None \<longrightarrow> position new = position old)"
    by (simp add: new_def Let_def split: option.splits)
  from assms u have "save_existing now old new = Inr t"
    by (cases "save_existing now old new") (simp_all add: failed_def)
  with u f show ?thesis by auto
qed

lemma updateTaskStatus_success:
  assumes "response (updateTaskStatus s uid old st pos now) = Inr t"
  shows "\<exists>new. save_existing now old new = Inr t \<and> completedAt new = completedAt old
           \<and> task_id new = task_id old \<and> userId new = userId old \<and> status new = st
           \<and> (pos = None \<longrightarrow> position new = position old)
           \<and> stored (updateTaskStatus s uid old st pos now) = replace_task t s
           \<and> emitted (updateTaskStatus s uid old st pos now)
               = emitTaskEvent uid ''task-status-updated'' t now"
proof -
  define new where "new =
     (case pos of None \<Rightarrow> old\<lparr>status := st\<rparr> | Some x \<Rightarrow> old\<lparr>status := st, position := x\<rparr>)"
  have u: "updateTaskStatus s uid old st pos now =
      (case save_existing now old new of
           Inl e \<Rightarrow> failed s e
         | Inr t' \<Rightarrow> \<lparr> response = Inr t', stored = replace_task t' s,
                       emitted = emitTaskEvent uid ''task-status-updated'' t' now \<rparr>)"
    by (simp add: updateTaskStatus_def new_def Let_def)
  have f: "completedAt new = completedAt old \<and> task_id new = task_id old
      \<and> userId new = userId old \<and> status new = st
      \<and> (pos = None \<longrightarrow> position new = position old)"
    by (simp add: new_def split: option.splits)
  from assms u have "save_existing now old new = Inr t"
    by (cases "save_existing now old new") (simp_all add: failed_def)
  with u f show ?thesis by auto
qed

lemma route_put_success:
  assumes "response (route_put s uid idp b now) = Inr t"
  shows "\<exists>old. validateTaskOwnership s uid idp = Inr old
           \<and> route_put s uid idp b now = updateTask s uid old (sanitized b) now"
  using assms
  by (cases "validateTaskOwnership s uid idp")
     (auto simp: route_put_def failed_def split: if_splits)

lemma route_patch_success:
  assumes "response (route_patch s uid idp b now) = Inr t"
  shows "\<exists>old st. validateTaskOwnership s uid idp = Inr old \<and> b_status b = Some st
           \<and> route_patch s uid idp b now = updateTaskStatus s uid old st (b_position b) now"
  using assms
  by (cases "validateTaskOwnership s uid idp"; cases "b_status b")
     (auto simp: route_patch_def failed_def split: if_splits)

lemma route_delete_success:
  assumes "response (route_delete s uid idp now) = Inr t"
  shows "validateTaskOwnership s uid idp = Inr t
           \<and> route_delete s uid idp now = deleteTask s uid t now"
  using assms
  by (cases "validateTaskOwnership s uid idp")
     (auto simp: route_delete_def failed_def deleteTask_def)

lemma save_new_Inr:
  assumes "save_new s newId now ttl descr st uid pos = Inr t"
  shows "task_id t = newId \<and> userId t = uid \<and> status t = st \<and> position t = pos
         \<and> completedAt t = (if st = ''done'' then Some now else None)
         \<and> newId \<notin> task_id ` set s"
  using assms
  by (auto simp: save_new_def Let_def pre_save_fields pre_save_completedAt split: if_splits)

lemma route_post_success:
  assumes "response (route_post s uid b newId now) = Inr t"
  shows "stored (route_post s uid b newId now) = s @ [t]
         \<and> emitted (route_post s uid b newId now) = emitTaskEvent uid ''task-created'' t now
         \<and> task_id t = newId \<and> userId t = uid \<and> newId \<notin> task_id ` set s
         \<and> completedAt t = (if status t = ''done'' then Some now else None)"
proof -
  let ?b = "sanitized b"
  let ?st = "case b_status ?b of None \<Rightarrow> ''todo'' | Some x \<Rightarrow> x"
  let ?pos = "case b_position ?b of Some p \<Rightarrow> p
             | None \<Rightarrow> (case lastTask s uid ?st of Some l \<Rightarrow> js_plus (position l) 1 | None \<Rightarrow> 0)"
  let ?sn = "save_new s newId now (case b_title ?b of None \<Rightarrow> [] | Some x \<Rightarrow> x)
                (b_description ?b) ?st uid ?pos"
  have c: "createTask s uid ?b newId now =
     (case ?sn of Inl e \<Rightarrow> failed s e
         | Inr t \<Rightarrow> \<lparr> response = Inr t, stored = s @ [t],
                      emitted = emitTaskEvent uid ''task-created'' t now \<rparr>)"
    by (simp add: createTask_def Let_def)
  from assms have r: "route_post s uid b newId now = createTask s uid ?b newId now"
    by (auto simp: route_post_def failed_def split: if_splits)
  with assms c have sn: "?sn = Inr t"
    by (cases ?sn) (simp_all add: failed_def)
  from save_new_Inr [OF sn] r c sn show ?thesis by simp
qed

lemma handle_failure:
  assumes "response (handle s r) = Inl e"
  shows "stored (handle s r) = s \<and> emitted (handle s r) = []"
proof (cases r)
  case (Post uid b newId now)
  with assms show ?thesis
    by (auto simp: route_post_def createTask_def failed_def Let_def split: if_splits sum.splits)
next
  case (Put uid idp b now)
  with assms show ?thesis
    by (auto simp: route_put_def updateTask_def failed_def Let_def
             split: if_splits sum.splits)
next
  case (Delete uid idp now)
  with assms show ?thesis
    by (auto simp: route_delete_def deleteTask_def failed_def split: sum.splits)
next
  case (Patch uid idp b now)
  with assms show ?thesis
    by (auto simp: route_patch_def updateTaskStatus_def failed_def Let_def
             split: if_splits sum.splits option.splits)
qed


lemma modify_success:
  assumes "r = Put uid idp b now \<or> r = Patch uid idp b now"
    and "response (handle s r) = Inr t"
  shows "\<exists>old new. validateTaskOwnership s uid idp = Inr old
           \<and> save_existing now old new = Inr t \<and> completedAt new = completedAt old
           \<and> task_id new = task_id old \<and> userId new = userId old
           \<and> (b_position b = None \<longrightarrow> position new = position old)
           \<and> stored (handle s r) = replace_task t s
           \<and> (\<exists>n. emitted (handle s r) = emitTaskEvent uid n t now
                  \<and> n \<in> {''task-updated'', ''task-status-updated''})"
proof -
  from assms(1) show ?thesis
  proof
    assume r: "r = Put uid idp b now"
    with assms(2) have rp: "response (route_put s uid idp b now) = Inr t" by simp
    from route_put_success [OF rp] obtain old where
      o: "validateTaskOwnership s uid idp = Inr old"
      and e: "route_put s uid idp b now = updateTask s uid old (sanitized b) now" by blast
    from rp e have "response (updateTask s uid old (sanitized b) now) = Inr t" by simp
    from updateTask_success [OF this] o e r show ?thesis
      by (auto simp: sanitized_def)
  next
    assume r: "r = Patch uid idp b now"
    with assms(2) have rp: "response (route_patch s uid idp b now) = Inr t" by simp
    from route_patch_success [OF rp] obtain old st where
      o: "validateTaskOwnership s uid idp = Inr old"
      and e: "route_patch s uid idp b now = updateTaskStatus s uid old st (b_position b) now"
      by blast
    from rp e have "response (updateTaskStatus s uid old st (b_position b) now) = Inr t"
      by simp
    from updateTaskStatus_success [OF this] o e r show ?thesis
      by auto
  qed
qed







lemma foreign_lookup:
  assumes "distinct (map task_id s)" and "t \<in> set s" and "userId t = A" and "B \<noteq> A"
  shows "validateTaskOwnership s B (Some (task_id t)) = Inl (Failure 404 ''TASK_NOT_FOUND'')"
proof -
  have "\<not> (\<exists>u \<in> set s. task_id u = task_id t \<and> userId u = B)"
  proof
    assume "\<exists>u \<in> set s. task_id u = task_id t \<and> userId u = B"
    then obtain u where u: "u \<in> set s" "task_id u = task_id t" "userId u = B" by blast
    from assms(1) have "inj_on task_id (set s)" by (simp add: distinct_map)
    then have "u = t" using u(2) u(1) assms(2) by (rule inj_onD)
    with u(3) assms(3,4) show False by simp
  qed
  then have "find (\<lambda>u. task_id u = task_id t \<and> userId u = B) s = None"
    by (simp add: find_None_iff)
  then show ?thesis by (simp add: validateTaskOwnership_def)
qed

text \<open>
  \<^verbatim>\<open>_id\<close> is the key of the collection. When \<open>t\<close> is a stored task of account \<open>A\<close> and
  \<open>B\<close> is another account, the chains of the update, the status change and the delete
  that \<open>B\<close> issues against \<open>t\<close>'s id each end in \<^verbatim>\<open>validateTaskOwnership\<close> with 404
  \<^verbatim>\<open>TASK_NOT_FOUND\<close>, whatever the body.
\<close>

lemma foreign_route_not_found:
  assumes "distinct (map task_id s)" and "t \<in> set s" and "userId t = A" and "B \<noteq> A"
  shows "route_put s B (Some (task_id t)) b now
           = \<lparr> response = Inl (Failure 404 ''TASK_NOT_FOUND''), stored = s, emitted = [] \<rparr>
       \<and> route_patch s B (Some (task_id t)) b now
           = \<lparr> response = Inl (Failure 404 ''TASK_NOT_FOUND''), stored = s, emitted = [] \<rparr>
       \<and> route_delete s B (Some (task_id t)) now
           = \<lparr> response = Inl (Failure 404 ''TASK_NOT_FOUND''), stored = s, emitted = [] \<rparr>"
  using foreign_lookup [OF assms]
  by (simp add: route_put_def route_patch_def route_delete_def failed_def)

text \<open>
  Claim C3 as stated fails: the guards that the router runs before every route answer
  first. Account \<open>u2\<close> sends \<^verbatim>\<open>PUT /tasks/t1\<close> for the task \<open>t1\<close> of account \<open>u1\<close> with a
  body that has a key \<^verbatim>\<open>$set\<close>: the answer is 400 \<^verbatim>\<open>INVALID_INPUT\<close>, not 404.
\<close>

theorem foreign_request_stopped_by_guard:
  "task_router \<lparr> content_length = 40, keys = [''title'', ''$set''] \<rparr> example_store
     (Put ''u2'' (Some ''t1'') example_body 30)
   = \<lparr> response = Inl (Failure 400 ''INVALID_INPUT''), stored = example_store,
       emitted = [] \<rparr>"
  by (simp add: task_router_def router_guards_def validateRequestSize_def
        validateNoSqlInjection_def failed_def Let_def)

text \<open>
  Claim C3, amended. For any two distinct accounts \<open>A\<close> and \<open>B\<close> and any stored task of
  \<open>A\<close>, every update, status change or delete that \<open>B\<close> issues against that task's id
  fails, and the collection stays as it was and no event goes out: the answer is 413
  \<^verbatim>\<open>PAYLOAD_TOO_LARGE\<close> when the \<^verbatim>\<open>content-length\<close> of the request is over 1 MB, else 400
  \<^verbatim>\<open>INVALID_INPUT\<close> when a key of the request starts with \<^verbatim>\<open>$\<close> or contains a dot, and
  else 404 \<^verbatim>\<open>TASK_NOT_FOUND\<close>, whatever the body. It never succeeds, never carries a task,
  and is never 403.
\<close>

theorem foreign_task_never_served:
  assumes "distinct (map task_id s)" and "t \<in> set s" and "userId t = A" and "B \<noteq> A"
    and "r = Put B (Some (task_id t)) b now \<or> r = Patch B (Some (task_id t)) b now
         \<or> r = Delete B (Some (task_id t)) now"
  shows "task_router tr s r =
     \<lparr> response = Inl
         (if 1024 * 1024 < content_length tr then Failure 413 ''PAYLOAD_TOO_LARGE''
          else if list_ex (\<lambda>key. take 1 key = ''$'' \<or> CHR ''.'' \<in> set key) (keys tr)
          then Failure 400 ''INVALID_INPUT''
          else Failure 404 ''TASK_NOT_FOUND''),
       stored = s, emitted = [] \<rparr>"
proof -
  from foreign_route_not_found [OF assms(1-4), of b now] assms(5)
  have "handle s r
          = \<lparr> response = Inl (Failure 404 ''TASK_NOT_FOUND''), stored = s, emitted = [] \<rparr>"
    by auto
  then show ?thesis
    by (simp add: task_router_def router_guards_def validateRequestSize_def
          validateNoSqlInjection_def failed_def Let_def)
qed

lemma run_distinct_ids:
  "distinct (map task_id s) \<Longrightarrow> distinct (map task_id (run s rs))"
proof (induction rs arbitrary: s)
  case Nil
  then show ?case by simp
next
  case (Cons r rs)
  have "distinct (map task_id (stored (handle s r)))"
  proof (cases "response (handle s r)")
    case (Inl e)
    with handle_failure [OF Inl] Cons.prems show ?thesis by simp
  next
    case (Inr t)
    show ?thesis
    proof (cases r)
      case (Post uid b newId now)
      with Inr have "response (route_post s uid b newId now) = Inr t" by simp
      from route_post_success [OF this]
      have "stored (route_post s uid b newId now) = s @ [t]" "task_id t = newId"
        "newId \<notin> task_id ` set s" by blast+
      with Post Cons.prems show ?thesis by simp
    next
      case (Put uid idp b now)
      with modify_success [of r uid idp b now s t] Inr obtain old new where
        sv: "save_existing now old new = Inr t" "task_id new = task_id old"
        and st: "stored (handle s r) = replace_task t s" by blast
      have "map task_id (replace_task t s) = map task_id s"
        by (simp add: replace_task_def)
      with st Cons.prems show ?thesis by simp
    next
      case (Delete uid idp now)
      with Inr have "response (route_delete s uid idp now) = Inr t" by simp
      from route_delete_success [OF this] Delete Cons.prems show ?thesis
        by (simp add: deleteTask_def distinct_map_filter)
    next
      case (Patch uid idp b now)
      with modify_success [of r uid idp b now s t] Inr obtain old new where
        st: "stored (handle s r) = replace_task t s" by blast
      have "map task_id (replace_task t s) = map task_id s"
        by (simp add: replace_task_def)
      with st Cons.prems show ?thesis by simp
    qed
  qed
  from Cons.IH [OF this] show ?case by simp
qed

text \<open>
  Claim C7. \<^verbatim>\<open>PATCH /tasks/:id/status\<close> leaves the collection at its length, and every
  document whose \<^verbatim>\<open>_id\<close> is not the one addressed is afterwards the document it was, its
  position included, whether the request succeeds or fails.
\<close>

theorem status_change_frame:
  "length (stored (route_patch s uid idp b now)) = length s
   \<and> (\<forall>i < length s. Some (task_id (s ! i)) \<noteq> idp
         \<longrightarrow> stored (route_patch s uid idp b now) ! i = s ! i)"
proof (cases "response (route_patch s uid idp b now)")
  case (Inl e)
  then have "response (handle s (Patch uid idp b now)) = Inl e" by simp
  from handle_failure [OF this] show ?thesis by simp
next
  case (Inr t)
  then have r: "response (handle s (Patch uid idp b now)) = Inr t" by simp
  from modify_success [OF _ r, of uid idp b now] obtain old new where
    o: "validateTaskOwnership s uid idp = Inr old"
    and sv: "save_existing now old new = Inr t" "task_id new = task_id old"
    and st: "stored (route_patch s uid idp b now) = replace_task t s" by auto
  from validateTaskOwnership_Inr [OF o] have idp: "idp = Some (task_id old)" by simp
  from save_existing_frame [OF sv(1)] sv(2) have "task_id t = task_id old" by simp
  with st idp show ?thesis by (simp add: replace_task_def)
qed



theorem foreign_task_never_served_witness:
  "task_router \<lparr> content_length = 17, keys = [''status''] \<rparr> example_store
     (Patch ''u2'' (Some ''t1'') (status_body ''done'') 30)
   = \<lparr> response = Inl (Failure 404 ''TASK_NOT_FOUND''), stored = example_store,
       emitted = [] \<rparr>"
proof -
  have d: "distinct (map task_id example_store)"
    by (simp add: example_store_def)
  have m: "hd example_store \<in> set example_store" "userId (hd example_store) = ''u1''"
    "''u2'' \<noteq> ''u1''"
    by (simp_all add: example_store_def)
  have i: "task_id (hd example_store) = ''t1''"
    by (simp add: example_store_def)
  have "task_router \<lparr> content_length = 17, keys = [''status''] \<rparr> example_store
     (Patch ''u2'' (Some (task_id (hd example_store))) (status_body ''done'') 30)
   = \<lparr> response = Inl (Failure 404 ''TASK_NOT_FOUND''), stored = example_store,
       emitted = [] \<rparr>"
    using foreign_task_never_served [where b = "status_body ''done''" and now = 30
        and tr = "\<lparr> content_length = 17, keys = [''status''] \<rparr>"
        and r = "Patch ''u2'' (Some (task_id (hd example_store))) (status_body ''done'') 30",
        OF d m]
    by simp
  then show ?thesis by (simp add: i)
qed

theorem status_change_frame_witness:
  "stored (route_patch example_store ''u1'' (Some ''t1'') (status_body ''inprogress'') 20) ! 1
     = example_store ! 1
   \<and> status (stored (route_patch example_store ''u1'' (Some ''t1'')
        (status_body ''inprogress'') 20) ! 0) = ''inprogress''"
  using status_change_frame [of example_store "''u1''" "Some ''t1''"
      "status_body ''inprogress''" 20]
  by (simp add: eval_defs)


subsection \<open>Page size of the listing\<close>




subsection \<open>Fan-out scoping\<close>

lemma io_step_rooms:
  assumes "\<forall>k \<in> set io. sock_rooms k = [''user:'' @ sock_user k]"
  shows "\<forall>k \<in> set (io_step verify users io ev). sock_rooms k = [''user:'' @ sock_user k]"
proof (cases ev)
  case (Connect sid hs)
  with assms show ?thesis
    by (cases "socketAuth verify users hs") (auto simp: handleConnection_def)
next
  case (Disconnect sid)
  with assms show ?thesis by simp
qed

lemma foldl_io_rooms:
  assumes "\<forall>k \<in> set io. sock_rooms k = [''user:'' @ sock_user k]"
  shows "\<forall>k \<in> set (foldl (io_step verify users) io evs).
           sock_rooms k = [''user:'' @ sock_user k]"
  using assms
proof (induction evs arbitrary: io)
  case Nil
  then show ?case by simp
next
  case (Cons ev evs)
  from Cons.IH [OF io_step_rooms [OF Cons.prems]] show ?case by simp
qed

lemma handle_emits:
  assumes "response (handle s r) = Inr t"
  shows "\<exists>e. emitted (handle s r) = [e] \<and> ev_task e = t
           \<and> ev_room e = ''user:'' @ requester r"
proof (cases r)
  case (Post uid b newId now)
  with assms have "response (route_post s uid b newId now) = Inr t" by simp
  from route_post_success [OF this] Post show ?thesis
    by (simp add: emitTaskEvent_def)
next
  case (Put uid idp b now)
  with modify_success [of r uid idp b now s t] assms obtain n where
    "emitted (handle s r) = emitTaskEvent uid n t now"
    "n \<in> {''task-updated'', ''task-status-updated''}" by blast
  with Put show ?thesis by (auto simp: emitTaskEvent_def)
next
  case (Delete uid idp now)
  with assms have "response (route_delete s uid idp now) = Inr t" by simp
  from route_delete_success [OF this] Delete show ?thesis
    by (simp add: deleteTask_def emitTaskEvent_def)
next
  case (Patch uid idp b now)
  with modify_success [of r uid idp b now s t] assms obtain n where
    "emitted (handle s r) = emitTaskEvent uid n t now"
    "n \<in> {''task-updated'', ''task-status-updated''}" by blast
  with Patch show ?thesis by (auto simp: emitTaskEvent_def)
qed

text \<open>
  Claim C4. For the sockets connected after any history of connections and
  disconnections, a successful mutation of account \<open>A\<close> emits exactly one event, which
  carries the task the request answered with, and a connected socket receives it exactly
  when it is authenticated for \<open>A\<close>. So every other session of \<open>A\<close> receives it (the
  socket of the session that issued the request is in the room as well), and no socket of
  another account does.
\<close>

theorem fanout_reaches_own_account_only:
  assumes "io = io_run verify users evs"
    and "response (handle s r) = Inr t"
  shows "\<exists>e. emitted (handle s r) = [e] \<and> ev_task e = t
           \<and> (\<forall>k \<in> set io. (k \<in> set (deliver io e)) = (sock_user k = requester r))"
proof -
  from handle_emits [OF assms(2)] obtain e where
    e: "emitted (handle s r) = [e]" "ev_task e = t" "ev_room e = ''user:'' @ requester r"
    by blast
  have rooms: "\<forall>k \<in> set io. sock_rooms k = [''user:'' @ sock_user k]"
    unfolding assms(1) io_run_def by (rule foldl_io_rooms) simp
  have "\<forall>k \<in> set io. (k \<in> set (deliver io e)) = (sock_user k = requester r)"
  proof
    fix k assume k: "k \<in> set io"
    with rooms have "sock_rooms k = [''user:'' @ sock_user k]" by blast
    with k e(3) show "(k \<in> set (deliver io e)) = (sock_user k = requester r)"
      by (auto simp: deliver_def)
  qed
  with e show ?thesis by blast
qed

lemma example_sockets:
  "io_run example_verify [''u1'', ''u2''] example_connections =
     [\<lparr> sock_id = ''s1'', sock_user = ''u1'', sock_rooms = [''user:u1''] \<rparr>,
      \<lparr> sock_id = ''s2'', sock_user = ''u1'', sock_rooms = [''user:u1''] \<rparr>,
      \<lparr> sock_id = ''s3'', sock_user = ''u2'', sock_rooms = [''user:u2''] \<rparr>]"
  by (simp add: io_run_def example_connections_def example_verify_def socketAuth_def
        handleConnection_def)

theorem fanout_reaches_own_account_only_witness:
  "\<exists>e. emitted (handle example_store (Patch ''u1'' (Some ''t1'') (status_body ''done'') 20))
          = [e]
       \<and> status (ev_task e) = ''done''
       \<and> map sock_id (deliver (io_run example_verify [''u1'', ''u2''] example_connections) e)
          = [''s1'', ''s2'']"
  using fanout_reaches_own_account_only [of
      "io_run example_verify [''u1'', ''u2''] example_connections"
      example_verify "[''u1'', ''u2'']" example_connections example_store
      "Patch ''u1'' (Some ''t1'') (status_body ''done'') 20"]
  by (simp add: example_sockets) (simp add: eval_defs deliver_def)

subsection \<open>The debounced service\<close>

lemma service_ok_init: "service_ok init_service"
  by (simp add: service_ok_def init_service_def)

lemma fire_ok:
  assumes ok: "service_ok st" and t: "t \<in> set (timers st)"
  shows "service_ok (fire t st)"
proof -
  from ok have a: "\<forall>u \<in> set (timers st) \<union> set (inflight st) \<union> set (sent st). t_id u < nextTimer st"
    and b: "\<forall>p \<in> set (settled st). fst p < nextTimer st"
    and c: "distinct (map t_id (timers st) @ map t_id (inflight st))"
    and d: "distinct (map t_id (sent st))"
    and e: "\<forall>u \<in> set (timers st). t_id u \<notin> t_id ` set (sent st)"
    and f: "\<forall>u \<in> set (timers st) \<union> set (inflight st). t_id u \<notin> fst ` set (settled st)"
    and g: "set (inflight st) \<subseteq> set (sent st)"
    unfolding service_ok_def by blast+
  let ?T = "filter (\<lambda>u. t_id u \<noteq> t_id t) (timers st)"
  have T: "set ?T \<subseteq> set (timers st)" by auto
  have tT: "t_id t \<notin> t_id ` set ?T" by auto
  have a': "\<forall>u \<in> set ?T \<union> set (inflight st @ [t]) \<union> set (sent st @ [t]). t_id u < nextTimer st"
    using a t T by auto
  have c1: "distinct (map t_id ?T)" using c by (simp add: distinct_map_filter)
  have c2: "distinct (map t_id (inflight st @ [t]))" using c t by auto
  have c3: "t_id ` set ?T \<inter> t_id ` set (inflight st @ [t]) = {}"
    using c tT by auto
  have c': "distinct (map t_id ?T @ map t_id (inflight st @ [t]))"
    using c1 c2 c3 by simp
  have d': "distinct (map t_id (sent st @ [t]))" using d e t by auto
  have e': "\<forall>u \<in> set ?T. t_id u \<notin> t_id ` set (sent st @ [t])"
    using e by auto
  have f': "\<forall>u \<in> set ?T \<union> set (inflight st @ [t]). t_id u \<notin> fst ` set (settled st)"
    using f t by auto
  have g': "set (inflight st @ [t]) \<subseteq> set (sent st @ [t])" using g by auto
  show ?thesis
    unfolding service_ok_def fire_def
    using a' b c' d' e' f' g' by simp
qed

lemma timers_fire: "timers (fire t st) = filter (\<lambda>u. t_id u \<noteq> t_id t) (timers st)"
  by (simp add: fire_def)

lemma fold_fire_ok:
  assumes "service_ok st" and "set L \<subseteq> set (timers st)" and "distinct (map t_id L)"
  shows "service_ok (fold fire L st)"
  using assms
proof (induction L arbitrary: st)
  case Nil
  then show ?case by simp
next
  case (Cons t L)
  from Cons.prems have t: "t \<in> set (timers st)" by simp
  have ok: "service_ok (fire t st)" using fire_ok [OF Cons.prems(1) t] .
  have sub: "set L \<subseteq> set (timers (fire t st))"
  proof
    fix u assume u: "u \<in> set L"
    from Cons.prems(3) have "t_id t \<notin> t_id ` set L" by simp
    with u have "t_id u \<noteq> t_id t" by (metis image_eqI)
    moreover from u Cons.prems(2) have "u \<in> set (timers st)" by auto
    ultimately show "u \<in> set (timers (fire t st))" by (simp add: timers_fire)
  qed
  from Cons.prems(3) have "distinct (map t_id L)" by simp
  from Cons.IH [OF ok sub this] show ?case by simp
qed

lemma service_ok_clock: "service_ok (st\<lparr>clock := c\<rparr>) = service_ok st"
  by (simp add: service_ok_def)

lemma advance_ok:
  assumes "service_ok st"
  shows "service_ok (advance dt st)"
proof -
  let ?st1 = "st\<lparr>clock := clock st + dt\<rparr>"
  let ?L = "sort_key t_due (filter (\<lambda>t. t_due t \<le> clock ?st1) (timers ?st1))"
  have ok1: "service_ok ?st1" using assms by (simp add: service_ok_clock)
  have sub: "set ?L \<subseteq> set (timers ?st1)" by auto
  from assms have "distinct (map t_id (timers st))" by (simp add: service_ok_def)
  then have "distinct (map t_id (filter (\<lambda>t. t_due t \<le> clock ?st1) (timers ?st1)))"
    by (simp add: distinct_map_filter)
  then have "distinct (map t_id ?L)"
    by (simp add: distinct_map)
  from fold_fire_ok [OF ok1 sub this] show ?thesis
    by (simp add: advance_def Let_def)
qed

lemma clearTimeout_ok:
  assumes ok: "service_ok st"
  shows "service_ok (clearTimeout tid st)"
proof -
  from ok have a: "\<forall>u \<in> set (timers st) \<union> set (inflight st) \<union> set (sent st). t_id u < nextTimer st"
    and b: "\<forall>p \<in> set (settled st). fst p < nextTimer st"
    and c: "distinct (map t_id (timers st) @ map t_id (inflight st))"
    and d: "distinct (map t_id (sent st))"
    and e: "\<forall>u \<in> set (timers st). t_id u \<notin> t_id ` set (sent st)"
    and f: "\<forall>u \<in> set (timers st) \<union> set (inflight st). t_id u \<notin> fst ` set (settled st)"
    and g: "set (inflight st) \<subseteq> set (sent st)"
    unfolding service_ok_def by blast+
  let ?T = "filter (\<lambda>t. t_id t \<noteq> tid) (timers st)"
  have T: "set ?T \<subseteq> set (timers st)" by auto
  have a': "\<forall>u \<in> set ?T \<union> set (inflight st) \<union> set (sent st). t_id u < nextTimer st"
    using a by auto
  have c': "distinct (map t_id ?T @ map t_id (inflight st))"
    using c by (auto simp: distinct_map_filter)
  have e': "\<forall>u \<in> set ?T. t_id u \<notin> t_id ` set (sent st)" using e by auto
  have f': "\<forall>u \<in> set ?T \<union> set (inflight st). t_id u \<notin> fst ` set (settled st)"
    using f by auto
  show ?thesis
    unfolding service_ok_def clearTimeout_def
    using a' b c' d e' f' g by simp
qed

lemma clearTimeout_fields:
  "nextTimer (clearTimeout tid st) = nextTimer st"
  "inflight (clearTimeout tid st) = inflight st"
  "sent (clearTimeout tid st) = sent st"
  "settled (clearTimeout tid st) = settled st"
  "clock (clearTimeout tid st) = clock st"
  "debounceMap (clearTimeout tid st) = debounceMap st"
  "timers (clearTimeout tid st) = filter (\<lambda>t. t_id t \<noteq> tid) (timers st)"
  by (simp_all add: clearTimeout_def)

lemma cleared_ok: "service_ok st \<Longrightarrow> service_ok (cleared key st)"
  by (simp add: cleared_def clearTimeout_ok split: option.splits)

lemma cleared_fields:
  "nextTimer (cleared key st) = nextTimer st"
  "inflight (cleared key st) = inflight st"
  "sent (cleared key st) = sent st"
  "settled (cleared key st) = settled st"
  "clock (cleared key st) = clock st"
  "debounceMap (cleared key st) = debounceMap st"
  "set (timers (cleared key st)) \<subseteq> set (timers st)"
  by (auto simp: cleared_def clearTimeout_fields split: option.splits)

lemma debounce_eq:
  "debounce key func delay st =
     (nextTimer st,
      (cleared key st)\<lparr>nextTimer := nextTimer st + 1,
          timers := timers (cleared key st) @
            [\<lparr> t_id = nextTimer st, t_due = clock st + delay, t_key = key,
               t_request = func \<rparr>],
          debounceMap := (key, nextTimer st) # filter (\<lambda>p. fst p \<noteq> key) (debounceMap st)\<rparr>)"
  by (simp add: debounce_def cleared_def [symmetric] Let_def cleared_fields)

lemma add_timer_ok:
  assumes ok: "service_ok st"
  shows "service_ok (st\<lparr>nextTimer := nextTimer st + 1,
            timers := timers st @ [\<lparr> t_id = nextTimer st, t_due = due, t_key = key,
               t_request = func \<rparr>],
            debounceMap := m\<rparr>)"
proof -
  let ?n = "\<lparr> t_id = nextTimer st, t_due = due, t_key = key, t_request = func \<rparr>"
  from ok have a: "\<forall>u \<in> set (timers st) \<union> set (inflight st) \<union> set (sent st). t_id u < nextTimer st"
    and b: "\<forall>p \<in> set (settled st). fst p < nextTimer st"
    and c: "distinct (map t_id (timers st) @ map t_id (inflight st))"
    and d: "distinct (map t_id (sent st))"
    and e: "\<forall>u \<in> set (timers st). t_id u \<notin> t_id ` set (sent st)"
    and f: "\<forall>u \<in> set (timers st) \<union> set (inflight st). t_id u \<notin> fst ` set (settled st)"
    and g: "set (inflight st) \<subseteq> set (sent st)"
    unfolding service_ok_def by blast+
  have fresh: "nextTimer st \<notin> t_id ` (set (timers st) \<union> set (inflight st) \<union> set (sent st))"
    using a by auto
  have fresh2: "nextTimer st \<notin> fst ` set (settled st)" using b by auto
  have a': "\<forall>u \<in> set (timers st @ [?n]) \<union> set (inflight st) \<union> set (sent st).
              t_id u < nextTimer st + 1"
    using a by (auto intro: less_SucI)
  have b': "\<forall>p \<in> set (settled st). fst p < nextTimer st + 1" using b by auto
  have c': "distinct (map t_id (timers st @ [?n]) @ map t_id (inflight st))"
    using c fresh by auto
  have e': "\<forall>u \<in> set (timers st @ [?n]). t_id u \<notin> t_id ` set (sent st)"
    using e fresh by auto
  have f': "\<forall>u \<in> set (timers st @ [?n]) \<union> set (inflight st). t_id u \<notin> fst ` set (settled st)"
    using f fresh2 by auto
  show ?thesis
    unfolding service_ok_def using a' b' c' d e' f' g by simp
qed

lemma debounce_ok:
  assumes "service_ok st"
  shows "service_ok (snd (debounce key func delay st))"
proof -
  from add_timer_ok [OF cleared_ok [OF assms, of key], where due = "clock st + delay"
      and key = key and func = func
      and m = "(key, nextTimer st) # filter (\<lambda>p. fst p \<noteq> key) (debounceMap st)"]
  show ?thesis by (simp add: debounce_eq cleared_fields)
qed

lemma respond_ok:
  assumes ok: "service_ok st"
  shows "service_ok (respond tid outcome st)"
proof (cases "find (\<lambda>c. t_id c = tid) (inflight st)")
  case None
  then show ?thesis using ok by (simp add: respond_def)
next
  case (Some c)
  from find_SomeD [OF Some] have cin: "c \<in> set (inflight st)" "t_id c = tid" by simp_all
  from ok have a: "\<forall>u \<in> set (timers st) \<union> set (inflight st) \<union> set (sent st). t_id u < nextTimer st"
    and b: "\<forall>p \<in> set (settled st). fst p < nextTimer st"
    and c: "distinct (map t_id (timers st) @ map t_id (inflight st))"
    and d: "distinct (map t_id (sent st))"
    and e: "\<forall>u \<in> set (timers st). t_id u \<notin> t_id ` set (sent st)"
    and f: "\<forall>u \<in> set (timers st) \<union> set (inflight st). t_id u \<notin> fst ` set (settled st)"
    and g: "set (inflight st) \<subseteq> set (sent st)"
    unfolding service_ok_def by blast+
  define I where "I = filter (\<lambda>u. t_id u \<noteq> tid) (inflight st)"
  define S where "S = settled st @ [(tid, outcome)]"
  have r: "respond tid outcome st =
      st\<lparr>inflight := I, settled := S,
         debounceMap := filter (\<lambda>p. fst p \<noteq> t_key c) (debounceMap st)\<rparr>"
    using Some by (simp add: respond_def I_def S_def)
  have I: "set I \<subseteq> set (inflight st)" unfolding I_def by auto
  have tidI: "tid \<notin> t_id ` set I" unfolding I_def by auto
  have "tid \<in> t_id ` set (inflight st)" using cin by blast
  then have tidT: "tid \<notin> t_id ` set (timers st)" using c by auto
  from a cin have lt: "tid < nextTimer st" by blast
  have a': "\<forall>u \<in> set (timers st) \<union> set I \<union> set (sent st). t_id u < nextTimer st"
    using a I by blast
  have b': "\<forall>p \<in> set S. fst p < nextTimer st"
    using b lt unfolding S_def by simp
  have "distinct (map t_id I)" "t_id ` set I \<subseteq> t_id ` set (inflight st)"
    using c unfolding I_def by (auto simp: distinct_map_filter)
  then have c': "distinct (map t_id (timers st) @ map t_id I)"
    using c by auto
  have fS: "fst ` set S = insert tid (fst ` set (settled st))"
    unfolding S_def by simp
  have f': "\<forall>u \<in> set (timers st) \<union> set I. t_id u \<notin> fst ` set S"
  proof
    fix u assume u: "u \<in> set (timers st) \<union> set I"
    with I f have 1: "t_id u \<notin> fst ` set (settled st)" by blast
    from u tidI tidT have 2: "t_id u \<noteq> tid" by blast
    from 1 2 show "t_id u \<notin> fst ` set S" unfolding fS by simp
  qed
  have g': "set I \<subseteq> set (sent st)" using g I by blast
  show ?thesis
    unfolding r service_ok_def
    using a' b' c' d e f' g' by simp
qed



















lemmas service_defs =
  service_run_def taskService_updateTaskStatus_def taskService_updateTask_def
  debounce_def clearTimeout_def advance_def fire_def respond_def cancelPendingRequests_def
  init_service_def status_request_def status_body_def Let_def




subsection \<open>Bursts of calls\<close>

lemma fire_fields:
  "sent (fire t st) = sent st @ [t]"
  "debounceMap (fire t st) = debounceMap st"
  "clock (fire t st) = clock st"
  "set (timers (fire t st)) \<subseteq> set (timers st)"
  by (auto simp: fire_def)

lemma sent_fold_fire: "sent (fold fire L st) = sent st @ L"
  by (induction L arbitrary: st) (simp_all add: fire_fields)

lemma debounceMap_fold_fire: "debounceMap (fold fire L st) = debounceMap st"
  by (induction L arbitrary: st) (simp_all add: fire_fields)

lemma clock_fold_fire: "clock (fold fire L st) = clock st"
  by (induction L arbitrary: st) (simp_all add: fire_fields)

lemma timers_fold_fire: "set (timers (fold fire L st)) \<subseteq> set (timers st)"
proof (induction L arbitrary: st)
  case Nil
  show ?case by simp
next
  case (Cons t L)
  from Cons.IH [of "fire t st"] fire_fields(4) [of t st] show ?case by auto
qed

lemmas fold_fire_fields =
  sent_fold_fire debounceMap_fold_fire clock_fold_fire

lemma advance_fields:
  "sent (advance dt st) =
     sent st @ sort_key t_due (filter (\<lambda>t. t_due t \<le> clock st + dt) (timers st))"
  "debounceMap (advance dt st) = debounceMap st"
  "clock (advance dt st) = clock st + dt"
  "set (timers (advance dt st)) \<subseteq> set (timers st)"
  using timers_fold_fire [of "sort_key t_due (filter (\<lambda>t. t_due t \<le> clock st + dt) (timers st))"
      "st\<lparr>clock := clock st + dt\<rparr>"]
  by (simp_all add: advance_def Let_def fold_fire_fields)

lemma debounce_fields:
  "sent (snd (debounce key func delay st)) = sent st"
  "clock (snd (debounce key func delay st)) = clock st"
  "map_of (debounceMap (snd (debounce key func delay st))) key = Some (nextTimer st)"
  by (simp_all add: debounce_eq cleared_fields)

lemma debounce_key_timers:
  assumes "registered key st"
  shows "filter (\<lambda>t. t_key t = key) (timers (snd (debounce key func delay st)))
         = [\<lparr> t_id = nextTimer st, t_due = clock st + delay, t_key = key,
              t_request = func \<rparr>]"
proof -
  have "filter (\<lambda>t. t_key t = key) (timers (cleared key st)) = []"
  proof (cases "map_of (debounceMap st) key")
    case None
    with assms have "\<forall>t \<in> set (timers st). t_key t \<noteq> key"
      by (auto simp: registered_def)
    with None show ?thesis by (simp add: cleared_def filter_empty_conv)
  next
    case (Some tid)
    with assms have "\<forall>t \<in> set (timers st). t_key t = key \<longrightarrow> t_id t = tid"
      by (auto simp: registered_def)
    then have "\<forall>t \<in> set (filter (\<lambda>t. t_id t \<noteq> tid) (timers st)). t_key t \<noteq> key"
      by auto
    then have "filter (\<lambda>t. t_key t = key) (filter (\<lambda>t. t_id t \<noteq> tid) (timers st)) = []"
      unfolding filter_empty_conv by blast
    with Some show ?thesis by (simp add: cleared_def clearTimeout_fields)
  qed
  then show ?thesis by (simp add: debounce_eq)
qed

lemma burst_step:
  assumes ok: "service_ok st" and reg: "registered key st"
  shows "service_ok (advance gap (snd (debounce key func delay st)))"
    and "registered key (advance gap (snd (debounce key func delay st)))"
    and "filter (\<lambda>t. t_key t = key) (sent (advance gap (snd (debounce key func delay st)))) =
           filter (\<lambda>t. t_key t = key) (sent st) @
           (if delay \<le> gap
            then [\<lparr> t_id = nextTimer st, t_due = clock st + delay, t_key = key,
                    t_request = func \<rparr>]
            else [])"
proof -
  let ?s1 = "snd (debounce key func delay st)"
  let ?st' = "advance gap (snd (debounce key func delay st))"
  let ?new = "\<lparr> t_id = nextTimer st, t_due = clock st + delay, t_key = key,
                t_request = func \<rparr>"
  have kt: "filter (\<lambda>t. t_key t = key) (timers ?s1) = [?new]"
    using debounce_key_timers [OF reg] .
  show "service_ok ?st'"
    by (intro advance_ok debounce_ok ok)
  show "registered key ?st'"
    unfolding registered_def
  proof (intro ballI impI)
    fix t assume t: "t \<in> set (timers ?st')" and k: "t_key t = key"
    from t have "t \<in> set (timers ?s1)"
      using advance_fields(4) by blast
    with k have "t \<in> set (filter (\<lambda>t. t_key t = key) (timers ?s1))" by simp
    then have "t = ?new" unfolding kt by simp
    then have "t_id t = nextTimer st" by simp
    then show "map_of (debounceMap ?st') key = Some (t_id t)"
      by (simp add: advance_fields debounce_fields)
  qed
  have "filter (\<lambda>t. t_key t = key)
          (sort_key t_due (filter (\<lambda>t. t_due t \<le> clock ?s1 + gap) (timers ?s1)))
        = sort_key t_due (filter (\<lambda>t. t_due t \<le> clock ?s1 + gap)
            (filter (\<lambda>t. t_key t = key) (timers ?s1)))"
    by (simp add: filter_sort conj_commute)
  also have "\<dots> = (if delay \<le> gap then [?new] else [])"
    unfolding kt by (simp add: debounce_fields)
  finally show "filter (\<lambda>t. t_key t = key) (sent ?st') =
           filter (\<lambda>t. t_key t = key) (sent st) @ (if delay \<le> gap then [?new] else [])"
    by (simp add: advance_fields debounce_fields)
qed

text \<open>
  From a state in which every pending timeout of the key is registered, a burst of calls
  for the key, each less than \<open>delay\<close> after the one before, with no response arriving
  during the burst and \<open>delay\<close> of quiet after the last call, sends one request for the
  key, the last one asked for.
\<close>

lemma burst_collapses:
  assumes "service_ok st" and "registered key st" and "calls \<noteq> []"
    and "\<forall>c \<in> set (butlast calls). snd c < delay" and "delay \<le> snd (last calls)"
  shows "map t_request (filter (\<lambda>t. t_key t = key) (sent (burst key delay calls st)))
         = map t_request (filter (\<lambda>t. t_key t = key) (sent st)) @ [fst (last calls)]"
  using assms
proof (induction calls arbitrary: st)
  case Nil
  then show ?case by simp
next
  case (Cons c rest)
  obtain func gap where c: "c = (func, gap)" by (cases c) auto
  let ?st' = "advance gap (snd (debounce key func delay st))"
  note step = burst_step [OF Cons.prems(1,2), of gap func delay]
  show ?case
  proof (cases "rest = []")
    case True
    with Cons.prems(5) c have "delay \<le> gap" by simp
    with step(3) True c show ?thesis by simp
  next
    case False
    with Cons.prems(4) c have "gap < delay" by simp
    with step(3) have same: "filter (\<lambda>t. t_key t = key) (sent ?st') =
           filter (\<lambda>t. t_key t = key) (sent st)" by simp
    from False Cons.prems(4) have 4: "\<forall>c \<in> set (butlast rest). snd c < delay" by simp
    from False Cons.prems(5) have 5: "delay \<le> snd (last rest)" by simp
    from Cons.IH [OF step(1,2) False 4 5] same False c show ?thesis by simp
  qed
qed

text \<open>
  Claim C6 fails on the code. A status change of task \<open>t1\<close> is requested at 0 ms and
  sent at 200 ms; its response is slow. The task is moved again at 600 ms and once more at
  750 ms, within the window of 200 ms. The response of the first call arrives in between,
  at 700 ms, and the \<^verbatim>\<open>finally\<close> of its callback deletes the key from \<^verbatim>\<open>debounceMap\<close>,
  which by then registers the timeout of the second request. The third request finds no
  entry and clears nothing: the second and the third request are both sent.
\<close>

theorem debounce_burst_after_slow_call:
  "map (\<lambda>t. b_status (payload (t_request t)))
     (sent (service_run init_service
        [UpdateStatus ''t1'' ''inprogress'', Advance 200, Advance 400,
         UpdateStatus ''t1'' ''done'', Advance 100, Respond 0 (Inr (hd example_store)),
         Advance 50, UpdateStatus ''t1'' ''todo'', Advance 200]))
   = [Some ''inprogress'', Some ''done'', Some ''todo'']
   \<and> map t_due
     (sent (service_run init_service
        [UpdateStatus ''t1'' ''inprogress'', Advance 200, Advance 400,
         UpdateStatus ''t1'' ''done'', Advance 100, Respond 0 (Inr (hd example_store)),
         Advance 50, UpdateStatus ''t1'' ''todo'', Advance 200]))
   = [200, 800, 950]"
  by (simp add: service_defs)

subsection \<open>Optimistic lane moves\<close>

lemma fire_more_fields:
  "nextTimer (fire t st) = nextTimer st"
  "inflight (fire t st) = inflight st @ [t]"
  by (simp_all add: fire_def)

lemma nextTimer_fold_fire: "nextTimer (fold fire L st) = nextTimer st"
  by (induction L arbitrary: st) (simp_all add: fire_more_fields)

lemma inflight_fold_fire: "inflight (fold fire L st) = inflight st @ L"
  by (induction L arbitrary: st) (simp_all add: fire_more_fields)

lemma advance_more_fields:
  "nextTimer (advance dt st) = nextTimer st"
  "set (inflight (advance dt st)) \<subseteq> set (inflight st) \<union> set (timers st)"
  by (auto simp: advance_def Let_def nextTimer_fold_fire inflight_fold_fire)

lemma respond_fields:
  "nextTimer (respond tid outcome st) = nextTimer st"
  "timers (respond tid outcome st) = timers st"
  "sent (respond tid outcome st) = sent st"
  "set (inflight (respond tid outcome st)) \<subseteq> set (inflight st)"
  by (auto simp: respond_def split: option.splits)

lemma respond_removes:
  assumes "tid \<in> t_id ` set (inflight st)"
  shows "tid \<notin> t_id ` set (inflight (respond tid outcome st))"
proof -
  from assms obtain c where "find (\<lambda>c. t_id c = tid) (inflight st) = Some c"
    by (cases "find (\<lambda>c. t_id c = tid) (inflight st)") (auto simp: find_None_iff)
  then show ?thesis by (auto simp: respond_def)
qed

lemma debounce_more_fields:
  "fst (debounce key func delay st) = nextTimer st"
  "nextTimer (snd (debounce key func delay st)) = nextTimer st + 1"
  "inflight (snd (debounce key func delay st)) = inflight st"
  by (simp_all add: debounce_eq cleared_fields)

lemma debounce_timers:
  "set (timers (snd (debounce key func delay st)))
     \<subseteq> insert \<lparr> t_id = nextTimer st, t_due = clock st + delay, t_key = key,
                   t_request = func \<rparr> (set (timers st))"
proof -
  have "set (timers (snd (debounce key func delay st)))
     = insert \<lparr> t_id = nextTimer st, t_due = clock st + delay, t_key = key,
                   t_request = func \<rparr> (set (timers (cleared key st)))"
    by (simp add: debounce_eq)
  with cleared_fields(7) [of key st] show ?thesis by blast
qed

lemma handleTaskDrop_move:
  assumes "find (\<lambda>t. task_id t = taskId) (tasks d) = Some tk" and "status tk \<noteq> newStatus"
  shows "awaiting (handleTaskDrop taskId newStatus d)
           = awaiting d @ [(nextTimer (svc d), tasks d)]"
    and "svc (handleTaskDrop taskId newStatus d)
           = snd (taskService_updateTaskStatus taskId newStatus (svc d))"
    and "alerts (handleTaskDrop taskId newStatus d) = alerts d"
proof -
  obtain p svc' where ps: "taskService_updateTaskStatus taskId newStatus (svc d) = (p, svc')"
    by (cases "taskService_updateTaskStatus taskId newStatus (svc d)") auto
  then have "p = fst (taskService_updateTaskStatus taskId newStatus (svc d))" by simp
  then have p: "p = nextTimer (svc d)"
    by (simp add: taskService_updateTaskStatus_def debounce_more_fields)
  from assms ps p
  show "awaiting (handleTaskDrop taskId newStatus d)
           = awaiting d @ [(nextTimer (svc d), tasks d)]"
    and "svc (handleTaskDrop taskId newStatus d)
           = snd (taskService_updateTaskStatus taskId newStatus (svc d))"
    and "alerts (handleTaskDrop taskId newStatus d) = alerts d"
    by (simp_all add: handleTaskDrop_def Let_def)
qed

lemma handleTaskDrop_cases:
  "handleTaskDrop taskId newStatus d = d
   \<or> (awaiting (handleTaskDrop taskId newStatus d) = awaiting d @ [(nextTimer (svc d), tasks d)]
      \<and> svc (handleTaskDrop taskId newStatus d)
           = snd (taskService_updateTaskStatus taskId newStatus (svc d))
      \<and> alerts (handleTaskDrop taskId newStatus d) = alerts d)"
proof (cases "find (\<lambda>t. task_id t = taskId) (tasks d)")
  case None
  then show ?thesis by (simp add: handleTaskDrop_def)
next
  case (Some tk)
  show ?thesis
  proof (cases "status tk = newStatus")
    case True
    with Some show ?thesis by (simp add: handleTaskDrop_def)
  next
    case False
    from handleTaskDrop_move [OF Some False] show ?thesis by simp
  qed
qed

lemma resume_fields:
  "svc (resume p outcome d) = svc d"
  "set (awaiting (resume p outcome d)) \<subseteq> set (awaiting d)"
  by (auto simp: resume_def Let_def split: option.splits sum.splits)

lemma map_of_filter_other:
  "q \<noteq> p \<Longrightarrow> map_of (filter (\<lambda>a. fst a \<noteq> q) xs) p = map_of xs p"
  by (induction xs) auto

lemma resume_other:
  assumes "q \<noteq> p"
  shows "map_of (awaiting (resume q outcome d)) p = map_of (awaiting d) p"
  using map_of_filter_other [OF assms, of "awaiting d"]
  by (simp add: resume_def Let_def split: option.splits sum.splits)

lemma dashboard_step_ok:
  assumes "dashboard_ok d"
  shows "dashboard_ok (dashboard_step d ev)"
proof (cases ev)
  case (Drop taskId newStatus)
  from handleTaskDrop_cases [of taskId newStatus d] show ?thesis
  proof
    assume "handleTaskDrop taskId newStatus d = d"
    with Drop assms show ?thesis by simp
  next
    assume h: "awaiting (handleTaskDrop taskId newStatus d)
                 = awaiting d @ [(nextTimer (svc d), tasks d)]
      \<and> svc (handleTaskDrop taskId newStatus d)
           = snd (taskService_updateTaskStatus taskId newStatus (svc d))
      \<and> alerts (handleTaskDrop taskId newStatus d) = alerts d"
    from assms have ok: "service_ok (svc d)"
      and aw: "\<forall>a \<in> set (awaiting d). fst a < nextTimer (svc d)"
      by (simp_all add: dashboard_ok_def)
    have 1: "service_ok (svc (handleTaskDrop taskId newStatus d))"
      using h ok by (simp add: taskService_updateTaskStatus_def debounce_ok)
    have 2: "nextTimer (svc (handleTaskDrop taskId newStatus d)) = nextTimer (svc d) + 1"
      using h by (simp add: taskService_updateTaskStatus_def debounce_more_fields)
    have 3: "\<forall>a \<in> set (awaiting (handleTaskDrop taskId newStatus d)).
               fst a < nextTimer (svc d) + 1"
      using h aw by (auto intro: less_SucI)
    from 1 2 3 Drop show ?thesis by (simp add: dashboard_ok_def)
  qed
next
  case (Tick dt)
  with assms show ?thesis
    by (simp add: dashboard_ok_def advance_ok advance_more_fields)
next
  case (Response p outcome)
  show ?thesis
  proof (cases "p \<in> t_id ` set (inflight (svc d))")
    case False
    with Response assms show ?thesis by simp
  next
    case True
    let ?d = "d\<lparr>svc := respond p outcome (svc d)\<rparr>"
    from assms have "service_ok (svc (resume p outcome ?d))"
      by (simp add: resume_fields dashboard_ok_def respond_ok)
    moreover have "\<forall>a \<in> set (awaiting (resume p outcome ?d)).
        fst a < nextTimer (svc (resume p outcome ?d))"
      using assms resume_fields(2) [of p outcome ?d]
      by (auto simp: resume_fields dashboard_ok_def respond_fields)
    ultimately show ?thesis using True Response by (simp add: dashboard_ok_def)
  qed
qed

lemma dashboard_run_ok: "dashboard_ok d \<Longrightarrow> dashboard_ok (dashboard_run d evs)"
  unfolding dashboard_run_def
  by (induction evs arbitrary: d) (simp_all add: dashboard_step_ok)

lemma dashboard_ok_init: "dashboard_ok (init_dashboard ts)"
  by (simp add: dashboard_ok_def init_dashboard_def service_ok_init)

lemma timers_advance: "set (timers (advance dt st)) \<subseteq> set (timers st)"
  using timers_fold_fire
    [of "sort_key t_due (filter (\<lambda>t. t_due t \<le> clock st + dt) (timers st))"
      "st\<lparr>clock := clock st + dt\<rparr>"]
  by (simp add: advance_def Let_def)

lemma finished_step:
  assumes "finished p d"
  shows "finished p (dashboard_step d ev)"
proof (cases ev)
  case (Drop taskId newStatus)
  from handleTaskDrop_cases [of taskId newStatus d] show ?thesis
  proof
    assume "handleTaskDrop taskId newStatus d = d"
    with Drop assms show ?thesis by simp
  next
    assume h: "awaiting (handleTaskDrop taskId newStatus d)
                 = awaiting d @ [(nextTimer (svc d), tasks d)]
      \<and> svc (handleTaskDrop taskId newStatus d)
           = snd (taskService_updateTaskStatus taskId newStatus (svc d))
      \<and> alerts (handleTaskDrop taskId newStatus d) = alerts d"
    from assms have lt: "p < nextTimer (svc d)" and t: "p \<notin> t_id ` set (timers (svc d))"
      and f: "p \<notin> t_id ` set (inflight (svc d))" and a: "p \<notin> fst ` set (awaiting d)"
      by (simp_all add: finished_def)
    let ?s = "snd (debounce (''status-'' @ taskId) (status_request taskId newStatus) 200 (svc d))"
    have "p \<notin> t_id ` set (timers ?s)"
      using debounce_timers [of "''status-'' @ taskId" "status_request taskId newStatus" 200 "svc d"]
        t lt by auto
    moreover have "p \<notin> fst ` set (awaiting d @ [(nextTimer (svc d), tasks d)])"
      using a lt by auto
    ultimately show ?thesis
      using h lt f Drop
      by (simp add: finished_def taskService_updateTaskStatus_def debounce_more_fields)
  qed
next
  case (Tick dt)
  from assms have lt: "p < nextTimer (svc d)" and t: "p \<notin> t_id ` set (timers (svc d))"
    and f: "p \<notin> t_id ` set (inflight (svc d))" and a: "p \<notin> fst ` set (awaiting d)"
    by (simp_all add: finished_def)
  have "p \<notin> t_id ` set (timers (advance dt (svc d)))"
    using timers_advance [of dt "svc d"] t by blast
  moreover have "p \<notin> t_id ` set (inflight (advance dt (svc d)))"
    using advance_more_fields(2) [of dt "svc d"] t f by blast
  ultimately show ?thesis using Tick lt a
    by (simp add: finished_def advance_more_fields)
next
  case (Response q outcome)
  show ?thesis
  proof (cases "q \<in> t_id ` set (inflight (svc d))")
    case False
    with Response assms show ?thesis by simp
  next
    case True
    let ?d = "d\<lparr>svc := respond q outcome (svc d)\<rparr>"
    from assms have lt: "p < nextTimer (svc d)" and t: "p \<notin> t_id ` set (timers (svc d))"
      and f: "p \<notin> t_id ` set (inflight (svc d))" and a: "p \<notin> fst ` set (awaiting d)"
      by (simp_all add: finished_def)
    have "p \<notin> t_id ` set (inflight (respond q outcome (svc d)))"
      using respond_fields(4) [of q outcome "svc d"] f by blast
    moreover have "p \<notin> fst ` set (awaiting (resume q outcome ?d))"
      using resume_fields(2) [of q outcome ?d] a by auto
    ultimately show ?thesis using True Response lt t
      by (simp add: finished_def resume_fields respond_fields)
  qed
qed

lemma finished_run: "finished p d \<Longrightarrow> finished p (dashboard_run d evs)"
  unfolding dashboard_run_def
  by (induction evs arbitrary: d) (simp_all add: finished_step)

lemma sent_step:
  assumes "p \<notin> t_id ` set (timers (svc d))"
  shows "filter (\<lambda>t. t_id t = p) (sent (svc (dashboard_step d ev)))
         = filter (\<lambda>t. t_id t = p) (sent (svc d))"
proof (cases ev)
  case (Drop taskId newStatus)
  from handleTaskDrop_cases [of taskId newStatus d] Drop show ?thesis
    by (auto simp: taskService_updateTaskStatus_def debounce_fields)
next
  case (Tick dt)
  have "\<forall>t \<in> set (sort_key t_due (filter (\<lambda>t. t_due t \<le> clock (svc d) + dt) (timers (svc d)))).
          t_id t \<noteq> p"
    using assms by auto
  then have "filter (\<lambda>t. t_id t = p)
      (sort_key t_due (filter (\<lambda>t. t_due t \<le> clock (svc d) + dt) (timers (svc d)))) = []"
    unfolding filter_empty_conv by blast
  with Tick show ?thesis by (simp add: advance_fields)
next
  case (Response q outcome)
  then show ?thesis by (simp add: resume_fields respond_fields)
qed

lemma sent_run:
  assumes "finished p d"
  shows "filter (\<lambda>t. t_id t = p) (sent (svc (dashboard_run d evs)))
         = filter (\<lambda>t. t_id t = p) (sent (svc d))"
  using assms unfolding dashboard_run_def
proof (induction evs arbitrary: d)
  case Nil
  then show ?case by simp
next
  case (Cons ev evs)
  from Cons.prems have "p \<notin> t_id ` set (timers (svc d))" by (simp add: finished_def)
  from sent_step [OF this, of ev] Cons.IH [OF finished_step [OF Cons.prems, of ev]]
  show ?case by simp
qed

lemma response_step:
  assumes "p \<in> t_id ` set (inflight (svc d))"
  shows "dashboard_step d (Response p outcome)
         = resume p outcome (d\<lparr>svc := respond p outcome (svc d)\<rparr>)"
  using assms by simp

lemma response_finishes:
  assumes ok: "dashboard_ok d" and aw: "map_of (awaiting d) p = Some orig"
    and fl: "p \<in> t_id ` set (inflight (svc d))"
  shows "finished p (dashboard_step d (Response p outcome))"
    and "tasks (dashboard_step d (Response p (Inl error))) = orig"
    and "alerts (dashboard_step d (Response p (Inl error))) = alerts d @ [errorMessage error]"
    and "sent (svc (dashboard_step d (Response p outcome))) = sent (svc d)"
    and "timers (svc (dashboard_step d (Response p outcome))) = timers (svc d)"
proof -
  note step = response_step [OF fl]
  from ok have sok: "service_ok (svc d)"
    and lt: "\<forall>a \<in> set (awaiting d). fst a < nextTimer (svc d)"
    by (simp_all add: dashboard_ok_def)
  from aw have "(p, orig) \<in> set (awaiting d)" by (rule map_of_SomeD)
  with lt have 1: "p < nextTimer (svc d)" by auto
  from sok have "distinct (map t_id (timers (svc d)) @ map t_id (inflight (svc d)))"
    by (simp add: service_ok_def)
  with fl have 2: "p \<notin> t_id ` set (timers (svc d))" by auto
  have 3: "p \<notin> t_id ` set (inflight (respond p outcome (svc d)))"
    using respond_removes [OF fl] .
  have 4: "p \<notin> fst ` set (awaiting (resume p outcome (d\<lparr>svc := respond p outcome (svc d)\<rparr>)))"
    using aw by (auto simp: resume_def Let_def split: sum.splits)
  show "finished p (dashboard_step d (Response p outcome))"
    unfolding step using 1 2 3 4
    by (simp add: finished_def resume_fields respond_fields)
  show "tasks (dashboard_step d (Response p (Inl error))) = orig"
    unfolding step using aw by (simp add: resume_def Let_def)
  show "alerts (dashboard_step d (Response p (Inl error))) = alerts d @ [errorMessage error]"
    unfolding step using aw by (simp add: resume_def Let_def)
  show "sent (svc (dashboard_step d (Response p outcome))) = sent (svc d)"
    unfolding step by (simp add: resume_fields respond_fields)
  show "timers (svc (dashboard_step d (Response p outcome))) = timers (svc d)"
    unfolding step by (simp add: resume_fields respond_fields)
qed

lemma distinct_one_entry:
  "distinct (map f xs) \<Longrightarrow> x \<in> set xs \<Longrightarrow> length (filter (\<lambda>t. f t = f x) xs) = 1"
proof (induction xs)
  case Nil
  then show ?case by simp
next
  case (Cons y ys)
  show ?case
  proof (cases "x = y")
    case True
    from Cons.prems(1) have "f y \<notin> f ` set ys" by simp
    then have "\<forall>t \<in> set ys. f t \<noteq> f y" by (metis image_eqI)
    then have "filter (\<lambda>t. f t = f y) ys = []" unfolding filter_empty_conv by blast
    with True show ?thesis by simp
  next
    case False
    with Cons.prems(2) have x: "x \<in> set ys" by simp
    from Cons.prems(1) have "f y \<notin> f ` set ys" by simp
    with x have "f y \<noteq> f x" by (metis image_eqI)
    moreover from Cons.prems(1) have "distinct (map f ys)" by simp
    from Cons.IH [OF this x] have "length (filter (\<lambda>t. f t = f x) ys) = 1" .
    ultimately show ?thesis by simp
  qed
qed

lemma awaiting_step:
  assumes ok: "dashboard_ok d" and aw: "map_of (awaiting d) p = Some orig"
  shows "map_of (awaiting (dashboard_step d ev)) p = Some orig
         \<or> finished p (dashboard_step d ev)"
proof (cases ev)
  case (Drop taskId newStatus)
  from handleTaskDrop_cases [of taskId newStatus d] Drop aw show ?thesis
    by (auto simp: map_add_Some_iff)
next
  case (Tick dt)
  with aw show ?thesis by simp
next
  case (Response q outcome)
  show ?thesis
  proof (cases "q \<in> t_id ` set (inflight (svc d))")
    case False
    with Response aw show ?thesis by simp
  next
    case True
    show ?thesis
    proof (cases "q = p")
      case True
      with \<open>q \<in> t_id ` set (inflight (svc d))\<close> response_finishes(1) [OF ok aw] Response
      show ?thesis by simp
    next
      case False
      from resume_other [OF False, of outcome "d\<lparr>svc := respond q outcome (svc d)\<rparr>"]
        aw True Response show ?thesis by simp
    qed
  qed
qed

lemma awaiting_run:
  assumes "dashboard_ok d" and "map_of (awaiting d) p = Some orig"
  shows "map_of (awaiting (dashboard_run d evs)) p = Some orig
         \<or> finished p (dashboard_run d evs)"
  using assms
proof (induction evs arbitrary: d)
  case Nil
  then show ?case by (simp add: dashboard_run_def)
next
  case (Cons ev evs)
  have run: "dashboard_run d (ev # evs) = dashboard_run (dashboard_step d ev) evs"
    by (simp add: dashboard_run_def)
  from awaiting_step [OF Cons.prems, of ev] show ?case
  proof
    assume "map_of (awaiting (dashboard_step d ev)) p = Some orig"
    from Cons.IH [OF dashboard_step_ok [OF Cons.prems(1)] this] run show ?thesis by simp
  next
    assume "finished p (dashboard_step d ev)"
    from finished_run [OF this, of evs] run show ?thesis by simp
  qed
qed

text \<open>
  Claim C5. Let \<open>d\<close> be the dashboard after any history, and let the user drop a task of
  the list on another lane: \<^verbatim>\<open>handleTaskDrop\<close> updates the list optimistically and calls
  the service, which returns the promise \<open>p\<close>. Whatever else happens until the request of
  \<open>p\<close> is in flight (state \<open>d2\<close>), when its response is a failure the list is again the
  list of \<open>d\<close>, one message is added to the alerts, no timeout is scheduled and nothing is
  sent; and in every later history the request of \<open>p\<close> stays the only one sent for this
  move, and \<^verbatim>\<open>handleTaskDrop\<close> is no longer waiting for \<open>p\<close>, so no second rollback or
  alert comes from it.
\<close>

theorem failed_move_rolls_back:
  assumes "d = dashboard_run (init_dashboard ts) evs0"
    and "find (\<lambda>t. task_id t = taskId) (tasks d) = Some tk"
    and "status tk \<noteq> newStatus"
    and "p = nextTimer (svc d)"
    and "d2 = dashboard_run (handleTaskDrop taskId newStatus d) evs"
    and "p \<in> t_id ` set (inflight (svc d2))"
    and "d3 = dashboard_step d2 (Response p (Inl error))"
  shows "tasks d3 = tasks d
       \<and> alerts d3 = alerts d2 @ [errorMessage error]
       \<and> sent (svc d3) = sent (svc d2) \<and> timers (svc d3) = timers (svc d2)
       \<and> (\<forall>evs'. length (filter (\<lambda>t. t_id t = p) (sent (svc (dashboard_run d3 evs')))) = 1
                 \<and> p \<notin> fst ` set (awaiting (dashboard_run d3 evs')))"
proof -
  let ?d1 = "handleTaskDrop taskId newStatus d"
  have ok: "dashboard_ok d"
    unfolding assms(1) by (rule dashboard_run_ok) (rule dashboard_ok_init)
  have ok1: "dashboard_ok ?d1"
    using dashboard_step_ok [OF ok, of "Drop taskId newStatus"] by simp
  have ok2: "dashboard_ok d2"
    unfolding assms(5) by (rule dashboard_run_ok) (rule ok1)
  from ok have "\<forall>a \<in> set (awaiting d). fst a < nextTimer (svc d)"
    by (simp add: dashboard_ok_def)
  then have "p \<notin> fst ` set (awaiting d)" unfolding assms(4) by auto
  then have "map_of (awaiting d) p = None" by (simp add: map_of_eq_None_iff)
  with handleTaskDrop_move(1) [OF assms(2,3)]
  have aw1: "map_of (awaiting ?d1) p = Some (tasks d)"
    by (simp add: assms(4) map_add_Some_iff)
  from awaiting_run [OF ok1 aw1, of evs] assms(6)
  have aw2: "map_of (awaiting d2) p = Some (tasks d)"
    unfolding assms(5) by (auto simp: finished_def)
  note fin = response_finishes [OF ok2 aw2 assms(6)]
  have f3: "finished p d3" unfolding assms(7) by (rule fin(1))
  have A: "tasks d3 = tasks d" unfolding assms(7) by (rule fin(2))
  have B: "alerts d3 = alerts d2 @ [errorMessage error]" unfolding assms(7) by (rule fin(3))
  have C: "sent (svc d3) = sent (svc d2)" unfolding assms(7) by (rule fin(4))
  have D: "timers (svc d3) = timers (svc d2)" unfolding assms(7) by (rule fin(5))
  from ok2 have sok: "service_ok (svc d2)" by (simp add: dashboard_ok_def)
  then have ds: "distinct (map t_id (sent (svc d2)))"
    and sub: "set (inflight (svc d2)) \<subseteq> set (sent (svc d2))"
    by (simp_all add: service_ok_def)
  from assms(6) sub obtain c where c: "c \<in> set (sent (svc d2))" "t_id c = p" by auto
  from distinct_one_entry [OF ds c(1)] c(2)
  have one: "length (filter (\<lambda>t. t_id t = p) (sent (svc d2))) = 1" by simp
  have E: "\<forall>evs'. length (filter (\<lambda>t. t_id t = p) (sent (svc (dashboard_run d3 evs')))) = 1
                 \<and> p \<notin> fst ` set (awaiting (dashboard_run d3 evs'))"
  proof
    fix evs'
    from sent_run [OF f3, of evs'] C one
    have "length (filter (\<lambda>t. t_id t = p) (sent (svc (dashboard_run d3 evs')))) = 1" by simp
    moreover from finished_run [OF f3, of evs']
    have "p \<notin> fst ` set (awaiting (dashboard_run d3 evs'))" by (simp add: finished_def)
    ultimately show "length (filter (\<lambda>t. t_id t = p) (sent (svc (dashboard_run d3 evs')))) = 1
                 \<and> p \<notin> fst ` set (awaiting (dashboard_run d3 evs'))" ..
  qed
  from A B C D E show ?thesis by (intro conjI)
qed

lemmas dashboard_defs =
  dashboard_run_def handleTaskDrop_def resume_def errorMessage_def init_dashboard_def
  example_store_def

theorem failed_move_rolls_back_witness:
  "tasks (dashboard_step
       (dashboard_run (handleTaskDrop ''t1'' ''done'' (init_dashboard example_store)) [Tick 200])
       (Response 0 (Inl \<lparr> data_error_message = None, data_message = Some ''Task not found'' \<rparr>)))
     = example_store
   \<and> alerts (dashboard_step
       (dashboard_run (handleTaskDrop ''t1'' ''done'' (init_dashboard example_store)) [Tick 200])
       (Response 0 (Inl \<lparr> data_error_message = None, data_message = Some ''Task not found'' \<rparr>)))
     = [''Task not found'']"
  using failed_move_rolls_back [where d = "init_dashboard example_store"
      and ts = example_store and ?evs0.0 = "[]" and taskId = "''t1''"
      and tk = "hd example_store" and newStatus = "''done''" and p = 0
      and evs = "[Tick 200]"
      and ?d2.0 = "dashboard_run (handleTaskDrop ''t1'' ''done'' (init_dashboard example_store))
                  [Tick 200]"
      and ?d3.0 = "dashboard_step
       (dashboard_run (handleTaskDrop ''t1'' ''done'' (init_dashboard example_store)) [Tick 200])
       (Response 0 (Inl \<lparr> data_error_message = None, data_message = Some ''Task not found'' \<rparr>))"
      and error = "\<lparr> data_error_message = None, data_message = Some ''Task not found'' \<rparr>"]
  by (simp add: dashboard_defs service_defs)

subsection \<open>Lane moves keep the rank\<close>

lemma debounce_sent: "sent (snd (debounce key func delay st)) = sent st"
  by (simp add: debounce_eq cleared_fields)

lemma advance_sent: "set (sent (advance dt st)) \<subseteq> set (sent st) \<union> set (timers st)"
  by (auto simp: advance_def Let_def sent_fold_fire)

text \<open>
  A call that is pending, in flight or sent after a step of the dashboard was so before
  the step, or the step is a drop and the call carries the request of
  \<^verbatim>\<open>taskService.updateTaskStatus\<close> for it.
\<close>

lemma calls_step:
  assumes "c \<in> set (timers (svc (dashboard_step d ev)))
             \<union> set (inflight (svc (dashboard_step d ev)))
             \<union> set (sent (svc (dashboard_step d ev)))"
  shows "c \<in> set (timers (svc d)) \<union> set (inflight (svc d)) \<union> set (sent (svc d))
         \<or> (\<exists>taskId st. ev = Drop taskId st \<and> t_request c = status_request taskId st)"
proof (cases ev)
  case (Drop taskId newStatus)
  from handleTaskDrop_cases [of taskId newStatus d] show ?thesis
  proof
    assume "handleTaskDrop taskId newStatus d = d"
    with assms Drop show ?thesis by simp
  next
    assume "awaiting (handleTaskDrop taskId newStatus d)
              = awaiting d @ [(nextTimer (svc d), tasks d)]
      \<and> svc (handleTaskDrop taskId newStatus d)
           = snd (taskService_updateTaskStatus taskId newStatus (svc d))
      \<and> alerts (handleTaskDrop taskId newStatus d) = alerts d"
    then have sv: "svc (dashboard_step d ev)
        = snd (debounce (''status-'' @ taskId) (status_request taskId newStatus) 200 (svc d))"
      using Drop by (simp add: taskService_updateTaskStatus_def)
    define new where "new = \<lparr> t_id = nextTimer (svc d), t_due = clock (svc d) + 200,
        t_key = ''status-'' @ taskId, t_request = status_request taskId newStatus \<rparr>"
    have tm: "set (timers (svc (dashboard_step d ev))) \<subseteq> insert new (set (timers (svc d)))"
      unfolding sv new_def by (rule debounce_timers)
    have fl: "inflight (svc (dashboard_step d ev)) = inflight (svc d)"
      unfolding sv by (rule debounce_more_fields)
    have sn: "sent (svc (dashboard_step d ev)) = sent (svc d)"
      unfolding sv by (rule debounce_sent)
    from assms tm fl sn
    have "c = new \<or> c \<in> set (timers (svc d)) \<union> set (inflight (svc d)) \<union> set (sent (svc d))"
      by auto
    then show ?thesis
    proof
      assume "c = new"
      then have "t_request c = status_request taskId newStatus" by (simp add: new_def)
      with Drop show ?thesis by simp
    next
      assume "c \<in> set (timers (svc d)) \<union> set (inflight (svc d)) \<union> set (sent (svc d))"
      then show ?thesis by simp
    qed
  qed
next
  case (Tick dt)
  have sv: "svc (dashboard_step d ev) = advance dt (svc d)" using Tick by simp
  have tm: "set (timers (svc (dashboard_step d ev))) \<subseteq> set (timers (svc d))"
    unfolding sv by (rule timers_advance)
  have fl: "set (inflight (svc (dashboard_step d ev)))
              \<subseteq> set (inflight (svc d)) \<union> set (timers (svc d))"
    unfolding sv by (rule advance_more_fields)
  have sn: "set (sent (svc (dashboard_step d ev))) \<subseteq> set (sent (svc d)) \<union> set (timers (svc d))"
    unfolding sv by (rule advance_sent)
  from assms tm fl sn
  have "c \<in> set (timers (svc d)) \<union> set (inflight (svc d)) \<union> set (sent (svc d))"
    by blast
  then show ?thesis by simp
next
  case (Response p outcome)
  show ?thesis
  proof (cases "p \<in> t_id ` set (inflight (svc d))")
    case True
    then have sv: "svc (dashboard_step d ev) = respond p outcome (svc d)"
      using Response by (simp add: resume_fields)
    have tm: "timers (svc (dashboard_step d ev)) = timers (svc d)"
      unfolding sv by (rule respond_fields)
    have fl: "set (inflight (svc (dashboard_step d ev))) \<subseteq> set (inflight (svc d))"
      unfolding sv by (rule respond_fields)
    have sn: "sent (svc (dashboard_step d ev)) = sent (svc d)"
      unfolding sv by (rule respond_fields)
    from assms tm fl sn
    have "c \<in> set (timers (svc d)) \<union> set (inflight (svc d)) \<union> set (sent (svc d))"
      by auto
    then show ?thesis by simp
  next
    case False
    with assms Response show ?thesis by simp
  qed
qed

lemma calls_run:
  assumes "c \<in> set (timers (svc (dashboard_run d evs)))
             \<union> set (inflight (svc (dashboard_run d evs)))
             \<union> set (sent (svc (dashboard_run d evs)))"
  shows "c \<in> set (timers (svc d)) \<union> set (inflight (svc d)) \<union> set (sent (svc d))
         \<or> (\<exists>taskId st. Drop taskId st \<in> set evs \<and> t_request c = status_request taskId st)"
  using assms unfolding dashboard_run_def
proof (induction evs arbitrary: d)
  case Nil
  then show ?case by simp
next
  case (Cons ev evs)
  from Cons.prems
  have "c \<in> set (timers (svc (foldl dashboard_step (dashboard_step d ev) evs)))
             \<union> set (inflight (svc (foldl dashboard_step (dashboard_step d ev) evs)))
             \<union> set (sent (svc (foldl dashboard_step (dashboard_step d ev) evs)))"
    by simp
  from Cons.IH [OF this]
  show ?case
  proof
    assume "c \<in> set (timers (svc (dashboard_step d ev)))
             \<union> set (inflight (svc (dashboard_step d ev)))
             \<union> set (sent (svc (dashboard_step d ev)))"
    from calls_step [OF this] show ?thesis by auto
  next
    assume "\<exists>taskId st. Drop taskId st \<in> set evs \<and> t_request c = status_request taskId st"
    then show ?thesis by auto
  qed
qed

lemma dashboard_sends_status_only:
  assumes "c \<in> set (sent (svc (dashboard_run (init_dashboard ts) evs)))"
  shows "\<exists>taskId st. Drop taskId st \<in> set evs \<and> t_request c = status_request taskId st"
proof -
  from assms
  have "c \<in> set (timers (svc (dashboard_run (init_dashboard ts) evs)))
             \<union> set (inflight (svc (dashboard_run (init_dashboard ts) evs)))
             \<union> set (sent (svc (dashboard_run (init_dashboard ts) evs)))"
    by simp
  from calls_run [OF this] show ?thesis
    by (simp add: init_dashboard_def init_service_def)
qed

text \<open>
  A status change that the router serves: the guards let it through, the answer is the
  saved document, and the collection holds that document under the \<^verbatim>\<open>_id\<close> addressed.
\<close>

lemma task_router_success:
  assumes "response (task_router tr s r) = Inr t"
  shows "task_router tr s r = handle s r"
  using assms
  by (cases "router_guards tr") (simp_all add: task_router_def failed_def)

lemma status_change_stored:
  assumes p: "b_position b = None" and o: "validateTaskOwnership s uid idp = Inr old"
    and r: "response (task_router tr s (Patch uid idp b now)) = Inr t"
  shows "position t = position old" and "b_status b = Some (status t)"
    and "task_id t = task_id old"
    and "stored (task_router tr s (Patch uid idp b now)) = replace_task t s"
proof -
  from task_router_success [OF r]
  have h: "task_router tr s (Patch uid idp b now) = route_patch s uid idp b now" by simp
  with r have rp: "response (route_patch s uid idp b now) = Inr t" by simp
  from route_patch_success [OF rp] o obtain st' where
    bs: "b_status b = Some st'"
    and e: "route_patch s uid idp b now = updateTaskStatus s uid old st' (b_position b) now"
    by auto
  from rp e have "response (updateTaskStatus s uid old st' (b_position b) now) = Inr t"
    by simp
  from updateTaskStatus_success [OF this] p obtain new where
    sv: "save_existing now old new = Inr t" "status new = st'" "position new = position old"
      "task_id new = task_id old"
    and st: "stored (updateTaskStatus s uid old st' (b_position b) now) = replace_task t s"
    by auto
  from save_existing_frame [OF sv(1)] sv(2,3,4) bs
  show "position t = position old" and "b_status b = Some (status t)"
    and "task_id t = task_id old" by simp_all
  from st e h show "stored (task_router tr s (Patch uid idp b now)) = replace_task t s"
    by simp
qed

lemma replace_task_holds:
  assumes "old \<in> set s" and "task_id t = task_id old"
  shows "t \<in> set (replace_task t s)"
    and "\<forall>u \<in> set (replace_task t s). task_id u = task_id old \<longrightarrow> u = t"
proof -
  from assms have "(if task_id old = task_id t then t else old) \<in> set (replace_task t s)"
    unfolding replace_task_def by (metis (mono_tags, lifting) image_eqI set_map)
  with assms(2) show "t \<in> set (replace_task t s)" by simp
  show "\<forall>u \<in> set (replace_task t s). task_id u = task_id old \<longrightarrow> u = t"
    using assms(2) by (auto simp: replace_task_def)
qed

text \<open>
  Claim C9. In every history of the dashboard, each request that it has sent for its
  drag-and-drop moves is the \<^verbatim>\<open>PATCH /tasks/:id/status\<close> of one of the drops, with a body
  that holds the new lane and nothing else, so no position. And whenever the router
  serves a status change whose body has no position, the document it saves and answers
  with is in the lane asked for at the position the task had before, and this document
  is what the collection then holds under the task's \<^verbatim>\<open>_id\<close>: the moved task keeps the
  rank it had in its old lane.
\<close>

theorem lane_move_keeps_rank:
  "(\<forall>c \<in> set (sent (svc (dashboard_run (init_dashboard ts) evs))).
      \<exists>taskId st. Drop taskId st \<in> set evs
        \<and> t_request c =
            \<lparr> verb = ''PATCH'', url = ''/tasks/'' @ taskId @ ''/status'',
              payload = \<lparr> b_title = None, b_description = None, b_status = Some st,
                          b_position = None, b_completedAt = None \<rparr> \<rparr>)
   \<and> (\<forall>b old t. b_position b = None \<longrightarrow> validateTaskOwnership s uid idp = Inr old
         \<longrightarrow> response (task_router tr s (Patch uid idp b now)) = Inr t
         \<longrightarrow> position t = position old \<and> b_status b = Some (status t)
             \<and> t \<in> set (stored (task_router tr s (Patch uid idp b now)))
             \<and> (\<forall>u \<in> set (stored (task_router tr s (Patch uid idp b now))).
                   task_id u = task_id old \<longrightarrow> u = t))"
proof (rule conjI)
  show "\<forall>c \<in> set (sent (svc (dashboard_run (init_dashboard ts) evs))).
      \<exists>taskId st. Drop taskId st \<in> set evs
        \<and> t_request c =
            \<lparr> verb = ''PATCH'', url = ''/tasks/'' @ taskId @ ''/status'',
              payload = \<lparr> b_title = None, b_description = None, b_status = Some st,
                          b_position = None, b_completedAt = None \<rparr> \<rparr>"
  proof
    fix c
    assume "c \<in> set (sent (svc (dashboard_run (init_dashboard ts) evs)))"
    from dashboard_sends_status_only [OF this]
    show "\<exists>taskId st. Drop taskId st \<in> set evs
        \<and> t_request c =
            \<lparr> verb = ''PATCH'', url = ''/tasks/'' @ taskId @ ''/status'',
              payload = \<lparr> b_title = None, b_description = None, b_status = Some st,
                          b_position = None, b_completedAt = None \<rparr> \<rparr>"
      by (simp add: status_request_def status_body_def)
  qed
next
  show "\<forall>b old t. b_position b = None \<longrightarrow> validateTaskOwnership s uid idp = Inr old
         \<longrightarrow> response (task_router tr s (Patch uid idp b now)) = Inr t
         \<longrightarrow> position t = position old \<and> b_status b = Some (status t)
             \<and> t \<in> set (stored (task_router tr s (Patch uid idp b now)))
             \<and> (\<forall>u \<in> set (stored (task_router tr s (Patch uid idp b now))).
                   task_id u = task_id old \<longrightarrow> u = t)"
  proof (intro allI impI)
    fix b old t
    assume p: "b_position b = None" and o: "validateTaskOwnership s uid idp = Inr old"
      and r: "response (task_router tr s (Patch uid idp b now)) = Inr t"
    note sc = status_change_stored [OF p o r]
    from validateTaskOwnership_Inr [OF o] have "old \<in> set s" by simp
    note rt = replace_task_holds [OF this sc(3)]
    from sc(1,2) rt show "position t = position old \<and> b_status b = Some (status t)
             \<and> t \<in> set (stored (task_router tr s (Patch uid idp b now)))
             \<and> (\<forall>u \<in> set (stored (task_router tr s (Patch uid idp b now))).
                   task_id u = task_id old \<longrightarrow> u = t)"
      unfolding sc(4) by simp
  qed
qed

theorem lane_move_keeps_rank_witness:
  "map t_request (sent (svc (dashboard_run (init_dashboard example_store)
       [Drop ''t2'' ''done'', Tick 200])))
     = [\<lparr> verb = ''PATCH'', url = ''/tasks/t2/status'',
          payload = \<lparr> b_title = None, b_description = None, b_status = Some ''done'',
                      b_position = None, b_completedAt = None \<rparr> \<rparr>]
   \<and> map_sum id position (response (task_router \<lparr> content_length = 17, keys = [''status''] \<rparr>
        example_store (Patch ''u1'' (Some ''t2'') (status_body ''done'') 20))) = Inr 1
   \<and> map (\<lambda>u. (task_id u, status u, position u))
       (stored (task_router \<lparr> content_length = 17, keys = [''status''] \<rparr>
          example_store (Patch ''u1'' (Some ''t2'') (status_body ''done'') 20)))
     = [(''t1'', ''todo'', 0), (''t2'', ''done'', 1)]"
  using lane_move_keeps_rank [of example_store "[Drop ''t2'' ''done'', Tick 200]"
      example_store "''u1''" "Some ''t2''"
      "\<lparr> content_length = 17, keys = [''status''] \<rparr>" 20]
  by (simp add: eval_defs dashboard_defs service_defs task_router_def router_guards_def
        validateRequestSize_def validateNoSqlInjection_def)

end
